theory Spec2Isabelle
  imports Complex_Main
begin

section \<open>Numbers, errors and external objects\<close>

text \<open>
  The program is \<^verbatim>\<open>image_processing.py\<close>. Python's unbounded \<^verbatim>\<open>int\<close> is
  \<^typ>\<open>int\<close>. Python's \<^verbatim>\<open>float\<close> is modelled by \<^typ>\<open>rat\<close>: every operation is
  exact, so binary rounding is not part of the model. On the concrete inputs evaluated
  below, binary floating point arrives at the same values.

  The exceptions that the modelled code can raise are values of \<open>error\<close>; a function
  that can raise returns \<open>error + 'a\<close> with \<open>Inl\<close> for the exception. A loop that can
  run forever returns an \<open>option\<close>, \<open>None\<close> meaning that it does not return.
\<close>

datatype error = ZeroDivisionError | ValueError | IndexError | AssertionError | AttributeError

type_synonym bbox = "int \<times> int \<times> int \<times> int"

type_synonym color = "int \<times> int \<times> int \<times> int"

text \<open>\<^verbatim>\<open>int(x)\<close> of a float: truncation towards zero.\<close>

definition py_int :: "rat \<Rightarrow> int" where
  "py_int x = (if 0 \<le> x then \<lfloor>x\<rfloor> else \<lceil>x\<rceil>)"

text \<open>
  A loaded \<^verbatim>\<open>ImageFont\<close> belongs to Pillow. The program reads its size when it loads
  it and calls \<^verbatim>\<open>font.getbbox(word)\<close>; the font is the record of both.
\<close>

record font =
  pixel_size :: int
  getbbox :: "string \<Rightarrow> bbox"

text \<open>
  The font file \<^verbatim>\<open>font_fp\<close> gives, for each pixel size, the bounding box of each
  string. \<^verbatim>\<open>load_font\<close> is \<^verbatim>\<open>ImageFont.truetype(font_fp, size=font_size)\<close>;
  the search only calls it with sizes of at least 1, and what Pillow does with a file that
  is not a font is not modelled.
\<close>

type_synonym font_file = "int \<Rightarrow> string \<Rightarrow> bbox"

definition load_font :: "font_file \<Rightarrow> int \<Rightarrow> font" where
  "load_font font_fp sz = \<lparr>pixel_size = sz, getbbox = font_fp sz\<rparr>"

section \<open>Glyph widths and their cache\<close>

text \<open>
  \<^verbatim>\<open>get_word_width\<close> is decorated with \<^verbatim>\<open>functools.cache\<close>: a dictionary from the
  argument pair to the value returned for it, owned by the function and emptied by
  \<^verbatim>\<open>cache_clear\<close>. The dictionary is the state threaded through every function that
  measures a word. \<open>get_word_width_wrapped\<close> is the undecorated body.
\<close>

type_synonym cache = "string \<times> font \<rightharpoonup> int"

definition get_word_width_wrapped :: "string \<Rightarrow> font \<Rightarrow> int" where
  "get_word_width_wrapped word font =
     (case getbbox font word of (x0, y0, x1, y1) \<Rightarrow> x1 - x0)"

definition get_word_width :: "string \<Rightarrow> font \<Rightarrow> cache \<Rightarrow> int \<times> cache" where
  "get_word_width word font c =
     (case c (word, font) of
        Some v \<Rightarrow> (v, c)
      | None \<Rightarrow> (let v = get_word_width_wrapped word font in (v, c((word, font) \<mapsto> v))))"

definition cache_clear :: "cache \<Rightarrow> cache" where
  "cache_clear c = Map.empty"

section \<open>TextLine and Boundary\<close>

record text_line =
  word_spacing :: rat
  start_point :: "int \<times> int"
  font :: font
  words :: "string list"

text \<open>The list comprehension of \<^verbatim>\<open>words_width\<close>, left to right.\<close>

fun word_widths :: "string list \<Rightarrow> font \<Rightarrow> cache \<Rightarrow> int list \<times> cache" where
  "word_widths [] f c = ([], c)"
| "word_widths (w # ws) f c =
     (case get_word_width w f c of (v, c1) \<Rightarrow>
        (case word_widths ws f c1 of (vs, c2) \<Rightarrow> (v # vs, c2)))"

definition words_width :: "text_line \<Rightarrow> cache \<Rightarrow> int \<times> cache" where
  "words_width line c =
     (case word_widths (words line) (font line) c of (vs, c1) \<Rightarrow> (sum_list vs, c1))"

definition total_width :: "text_line \<Rightarrow> cache \<Rightarrow> rat \<times> cache" where
  "total_width line c =
     (case words_width line c of (ww, c1) \<Rightarrow>
        (of_int ww + word_spacing line * of_nat (length (words line)), c1))"

definition add_word :: "text_line \<Rightarrow> string \<Rightarrow> text_line" where
  "add_word line word = line\<lparr>words := words line @ [word]\<rparr>"

definition fit_length :: "text_line \<Rightarrow> rat \<Rightarrow> cache \<Rightarrow> text_line \<times> cache" where
  "fit_length line len c =
     (if length (words line) > 1 then
        (let space_count = int (length (words line)) - 1 in
         case words_width line c of (ww, c1) \<Rightarrow>
           (line\<lparr>word_spacing := (len - of_int ww) / of_int space_count\<rparr>, c1))
      else (line\<lparr>word_spacing := 0\<rparr>, c))"

record boundary =
  start_point :: "int \<times> int"
  end_point :: "int \<times> int"

definition boundary_length :: "boundary \<Rightarrow> int" where
  "boundary_length b = \<bar>fst (boundary.start_point b) - fst (boundary.end_point b)\<bar>"

section \<open>The line packer\<close>

text \<open>
  \<^verbatim>\<open>text.split()\<close> cuts the text at runs of white space and drops empty pieces. The
  characters that Python counts as white space, among the code points below 256.
\<close>

definition isspace :: "char \<Rightarrow> bool" where
  "isspace ch = (let n = (of_char ch :: nat) in
     (9 \<le> n \<and> n \<le> 13) \<or> (28 \<le> n \<and> n \<le> 32) \<or> n = 133 \<or> n = 160)"

fun split_from :: "string \<Rightarrow> string \<Rightarrow> string list" where
  "split_from [] cur = (if cur = [] then [] else [cur])"
| "split_from (ch # cs) cur =
     (if isspace ch then (if cur = [] then split_from cs [] else cur # split_from cs [])
      else split_from cs (cur @ [ch]))"

definition str_split :: "string \<Rightarrow> string list" where
  "str_split text = split_from text []"

text \<open>
  The \<^verbatim>\<open>while words:\<close> loop of \<^verbatim>\<open>align_text_to_boundaries\<close> for one boundary, with
  its \<^verbatim>\<open>else\<close> clause. The state is the line being filled, the pending words, the
  lines finished so far and the cache. With no pending word the loop ends without
  \<^verbatim>\<open>break\<close> and the \<^verbatim>\<open>else\<close> clause runs. A rejected word is popped and inserted
  again at the front, which leaves the pending words as they were.
\<close>

fun align_while ::
  "text_line \<Rightarrow> boundary \<Rightarrow> font \<Rightarrow> rat \<Rightarrow> string list \<Rightarrow> text_line list \<Rightarrow> cache
   \<Rightarrow> text_line list \<times> string list \<times> cache" where
  "align_while line b f min_spacing [] lines c =
     (if words line \<noteq> [] then
        (case fit_length line (of_int (boundary_length b)) c of (line', c1) \<Rightarrow>
           (lines @ [line'], [], c1))
      else (lines, [], c))"
| "align_while line b f min_spacing (word # ws) lines c =
     (case get_word_width word f c of (w, c1) \<Rightarrow>
        (let additional_width = of_int w + min_spacing in
         case total_width line c1 of (tw, c2) \<Rightarrow>
           (let new_width = additional_width + tw in
            if new_width < of_int (boundary_length b) \<or>
               new_width - of_int (boundary_length b) < min_spacing * (1 / 4)
            then align_while (add_word line word) b f min_spacing ws lines c2
            else (case fit_length line (of_int (boundary_length b)) c2 of (line', c3) \<Rightarrow>
                    (lines @ [line'], word # ws, c3)))))"

text \<open>The \<^verbatim>\<open>for boundary in boundaries:\<close> loop.\<close>

fun align_for ::
  "boundary list \<Rightarrow> font \<Rightarrow> rat \<Rightarrow> string list \<Rightarrow> text_line list \<Rightarrow> cache
   \<Rightarrow> text_line list \<times> string list \<times> cache" where
  "align_for [] f min_spacing ws lines c = (lines, ws, c)"
| "align_for (b # bs) f min_spacing ws lines c =
     (let line = \<lparr>word_spacing = min_spacing, start_point = boundary.start_point b,
                  font = f, words = []\<rparr> in
      case align_while line b f min_spacing ws lines c of (lines', ws', c') \<Rightarrow>
        align_for bs f min_spacing ws' lines' c')"

definition align_text_to_boundaries ::
  "string \<Rightarrow> boundary list \<Rightarrow> font \<Rightarrow> rat \<Rightarrow> cache \<Rightarrow> text_line list \<times> cache" where
  "align_text_to_boundaries text boundaries f min_spacing c =
     (case align_for boundaries f min_spacing (str_split text) [] c of
        (lines, ws, c') \<Rightarrow> (lines, c'))"

section \<open>Predicates and inputs for the packer\<close>

text \<open>
  \<open>cache_ok\<close> says that every entry of the cache is the width that the undecorated
  function computes for its key, which holds of any cache that only \<^verbatim>\<open>get_word_width\<close>
  has written. \<open>glyph_sum\<close> is the sum of the glyph widths of a list of words.
  \<open>justified\<close> is the line that \<^verbatim>\<open>fit_length\<close> leaves. \<open>accepted\<close> is the test of the
  packer on the words of a line, the new word included. \<open>packed\<close> is what holds of a line
  finalized against a boundary. \<open>mono_font\<close> is a font whose glyphs are 10 pixels wide
  and 20 high; \<open>two_words\<close> and \<open>span60\<close> are a line and a boundary to evaluate the
  packer on.
\<close>

definition cache_ok :: "cache \<Rightarrow> bool" where
  "cache_ok c = (\<forall>w f v. c (w, f) = Some v \<longrightarrow> v = get_word_width_wrapped w f)"

definition glyph_sum :: "font \<Rightarrow> string list \<Rightarrow> int" where
  "glyph_sum f ws = sum_list (map (\<lambda>w. get_word_width_wrapped w f) ws)"

definition justified :: "text_line \<Rightarrow> rat \<Rightarrow> text_line" where
  "justified line len =
     line\<lparr>word_spacing :=
       (if length (words line) > 1
        then (len - of_int (glyph_sum (font line) (words line)))
             / of_int (int (length (words line)) - 1)
        else 0)\<rparr>"

definition accepted :: "font \<Rightarrow> rat \<Rightarrow> boundary \<Rightarrow> string list \<Rightarrow> bool" where
  "accepted f ms b ws =
     (let new_width = of_int (glyph_sum f ws) + ms * of_nat (length ws) in
      new_width < of_int (boundary_length b) \<or>
      new_width - of_int (boundary_length b) < ms * (1 / 4))"

definition packed :: "font \<Rightarrow> rat \<Rightarrow> boundary \<Rightarrow> text_line \<Rightarrow> bool" where
  "packed f ms b l =
     (font l = f \<and> text_line.start_point l = boundary.start_point b \<and>
      (words l = [] \<or> accepted f ms b (words l)) \<and>
      word_spacing l =
        (if length (words l) > 1
         then (of_int (boundary_length b) - of_int (glyph_sum f (words l)))
              / of_int (int (length (words l)) - 1)
         else 0))"

definition mono_font :: font where
  "mono_font = \<lparr>pixel_size = 20, getbbox = (\<lambda>w. (0, 0, 10 * int (length w), 20))\<rparr>"

definition two_words :: text_line where
  "two_words = \<lparr>word_spacing = 5, start_point = (0, 50), font = mono_font,
                 words = [''ab'', ''cd'']\<rparr>"

definition span60 :: boundary where
  "span60 = \<lparr>start_point = (0, 50), end_point = (60, 50)\<rparr>"

section \<open>Images and the boundary scanner\<close>

text \<open>
  A Pillow image in mode RGBA: its size and its pixels. \<^verbatim>\<open>image.getpixel((x, y))\<close> is
  Pillow's; it returns the pixel inside the image and raises \<^verbatim>\<open>IndexError\<close> for
  coordinates outside of it.
\<close>

type_synonym rgba = "int \<times> int \<times> int \<times> int"

record image =
  width :: int
  height :: int
  pixels :: "int \<times> int \<Rightarrow> rgba"

definition getpixel :: "image \<Rightarrow> int \<times> int \<Rightarrow> error + rgba" where
  "getpixel im xy =
     (case xy of (x, y) \<Rightarrow>
        if 0 \<le> x \<and> x < width im \<and> 0 \<le> y \<and> y < height im then Inr (pixels im (x, y))
        else Inl IndexError)"

text \<open>
  Python's \<^verbatim>\<open>range(start, stop, step)\<close> as the list of its values; a step of zero
  raises \<^verbatim>\<open>ValueError\<close>.
\<close>

definition range3 :: "int \<Rightarrow> int \<Rightarrow> int \<Rightarrow> error + int list" where
  "range3 start stop step =
     (if step = 0 then Inl ValueError
      else if step > 0 then
        Inr (map (\<lambda>k. start + k * step) [0 .. (stop - start - 1) div step])
      else
        Inr (map (\<lambda>k. start + k * step) [0 .. (start - stop - 1) div (- step)]))"

definition is_target_pixel :: "bool \<Rightarrow> rgba \<Rightarrow> bool" where
  "is_target_pixel find_transparent px =
     (case px of (r, g, b, a) \<Rightarrow>
        (find_transparent \<and> a = 0) \<or> (\<not> find_transparent \<and> a > 0))"

text \<open>
  The \<^verbatim>\<open>for x in range(x, max(-1, x - step), -1)\<close> loop of \<^verbatim>\<open>find_pixel\<close>. Its
  arguments are the values of the range still to visit and the current value of the
  variable \<^verbatim>\<open>x\<close>, which the loop assigns at each turn and which keeps its last value
  when the range is used up. On a pixel that is not a target the loop adds one and breaks.
\<close>

fun find_pixel_for :: "image \<Rightarrow> int \<Rightarrow> bool \<Rightarrow> int list \<Rightarrow> int \<Rightarrow> error + int" where
  "find_pixel_for im start_y find_transparent [] x = Inr x"
| "find_pixel_for im start_y find_transparent (x' # xs) x =
     (case getpixel im (x', start_y) of
        Inl e \<Rightarrow> Inl e
      | Inr px \<Rightarrow>
          if \<not> is_target_pixel find_transparent px then Inr (x' + 1)
          else find_pixel_for im start_y find_transparent xs x')"

text \<open>
  The \<^verbatim>\<open>while x < image.width\<close> loop of \<^verbatim>\<open>find_pixel\<close>. With a step that is not
  positive the source can run forever, so the loop returns an option.
\<close>

partial_function (option) find_pixel_while ::
  "image \<Rightarrow> int \<Rightarrow> int \<Rightarrow> int \<Rightarrow> bool \<Rightarrow> (error + int) option" where
  "find_pixel_while im x start_y step find_transparent =
     (if x < width im then
        (case getpixel im (x, start_y) of
           Inl e \<Rightarrow> Some (Inl e)
         | Inr px \<Rightarrow>
             if is_target_pixel find_transparent px then
               Some (find_pixel_for im start_y find_transparent
                       (rev [max (- 1) (x - step) + 1 .. x]) x)
             else find_pixel_while im (x + step) start_y step find_transparent)
      else Some (Inr x))"

definition find_pixel ::
  "image \<Rightarrow> int \<Rightarrow> int \<Rightarrow> int \<Rightarrow> bool \<Rightarrow> (error + int \<times> int) option" where
  "find_pixel im start_x start_y step find_transparent =
     (case find_pixel_while im start_x start_y step find_transparent of
        None \<Rightarrow> None
      | Some (Inl e) \<Rightarrow> Some (Inl e)
      | Some (Inr x) \<Rightarrow>
          if x < width im then
            (case getpixel im (x, start_y) of
               Inl e \<Rightarrow> Some (Inl e)
             | Inr px \<Rightarrow>
                 if is_target_pixel find_transparent px
                 then Some (Inr (min x (width im), start_y))
                 else Some (Inl AssertionError))
          else Some (Inr (min x (width im), start_y)))"

text \<open>
  The \<^verbatim>\<open>while True\<close> loop of \<^verbatim>\<open>get_text_boundaries\<close> on the row \<open>y\<close>; the boundaries
  found so far are threaded through it.
\<close>

partial_function (option) boundaries_while ::
  "image \<Rightarrow> int \<Rightarrow> int \<Rightarrow> int \<Rightarrow> boundary list \<Rightarrow> (error + boundary list) option" where
  "boundaries_while im x y boundaries_spacing boundaries =
     (case find_pixel im x y boundaries_spacing False of
        None \<Rightarrow> None
      | Some (Inl e) \<Rightarrow> Some (Inl e)
      | Some (Inr (x1, y1)) \<Rightarrow>
          if x1 = width im then Some (Inr boundaries)
          else
            (case find_pixel im (x1 + 1) y boundaries_spacing True of
               None \<Rightarrow> None
             | Some (Inl e) \<Rightarrow> Some (Inl e)
             | Some (Inr (end_x, y2)) \<Rightarrow>
                 boundaries_while im end_x y boundaries_spacing
                   (boundaries @ [\<lparr>start_point = (x1, y), end_point = (end_x - 1, y)\<rparr>])))"

text \<open>The \<^verbatim>\<open>for y in range(...)\<close> loop of \<^verbatim>\<open>get_text_boundaries\<close>.\<close>

fun boundaries_for ::
  "image \<Rightarrow> int list \<Rightarrow> int \<Rightarrow> boundary list \<Rightarrow> (error + boundary list) option" where
  "boundaries_for im [] boundaries_spacing boundaries = Some (Inr boundaries)"
| "boundaries_for im (y # ys) boundaries_spacing boundaries =
     (case boundaries_while im 0 y boundaries_spacing boundaries of
        None \<Rightarrow> None
      | Some (Inl e) \<Rightarrow> Some (Inl e)
      | Some (Inr boundaries') \<Rightarrow> boundaries_for im ys boundaries_spacing boundaries')"

definition get_text_boundaries :: "image \<Rightarrow> int \<Rightarrow> (error + boundary list) option" where
  "get_text_boundaries im boundaries_spacing =
     (case range3 boundaries_spacing (height im) boundaries_spacing of
        Inl e \<Rightarrow> Some (Inl e)
      | Inr ys \<Rightarrow> boundaries_for im ys boundaries_spacing [])"

section \<open>Predicates and inputs for the scanner\<close>

text \<open>
  \<open>target_at\<close> says that the pixel at column \<open>x\<close> of row \<open>y\<close> is the kind of pixel
  \<^verbatim>\<open>find_pixel\<close> looks for. \<open>span_ok\<close> is what holds of every boundary the scanner
  emits. \<open>dot_image\<close> is an image of 3 by 2 pixels whose only opaque pixel is at
  \<open>(0, 1)\<close>.
\<close>

definition target_at :: "image \<Rightarrow> int \<Rightarrow> bool \<Rightarrow> int \<Rightarrow> bool" where
  "target_at im y find_transparent x = is_target_pixel find_transparent (pixels im (x, y))"

definition span_ok :: "image \<Rightarrow> boundary \<Rightarrow> bool" where
  "span_ok im b =
     (0 \<le> fst (boundary.start_point b) \<and>
      fst (boundary.start_point b) \<le> fst (boundary.end_point b) \<and>
      fst (boundary.end_point b) < width im)"

definition dot_image :: image where
  "dot_image = \<lparr>width = 3, height = 2,
                 pixels = (\<lambda>xy. if xy = (0, 1) then (0, 0, 0, 255) else (0, 0, 0, 0))\<rparr>"

section \<open>The renderer\<close>

text \<open>
  The canvas is the sequence of \<^verbatim>\<open>draw.text(point, word, fill=color, font=font)\<close> calls
  made on the fresh transparent image, in order. The environment variable \<^verbatim>\<open>DEBUG\<close> is
  taken as unset, so the debug prints and ellipses are not part of the model.
\<close>

type_synonym draw_call = "(rat \<times> rat) \<times> string \<times> color \<times> font"

text \<open>
  The block \<^verbatim>\<open>if len(line.words) == 1:\<close> of \<^verbatim>\<open>draw_text_lines\<close>: the length is the
  line's own \<^verbatim>\<open>total_width\<close>, the words become the empty string, the word and the empty
  string, and \<^verbatim>\<open>fit_length\<close> solves the spacing again for that length.
\<close>

definition single_word_block :: "text_line \<Rightarrow> cache \<Rightarrow> text_line \<times> cache" where
  "single_word_block line c =
     (case words line of
        [word] \<Rightarrow>
          (case total_width line c of (len, c1) \<Rightarrow>
             fit_length (line\<lparr>words := ['''', word, '''']\<rparr>) len c1)
      | _ \<Rightarrow> (line, c))"

text \<open>The \<^verbatim>\<open>for word in line.words:\<close> loop: draw the word, then advance the point.\<close>

fun draw_words ::
  "string list \<Rightarrow> rat \<times> rat \<Rightarrow> rat \<Rightarrow> font \<Rightarrow> color \<Rightarrow> draw_call list \<Rightarrow> cache
   \<Rightarrow> draw_call list \<times> cache" where
  "draw_words [] point spacing f col canvas c = (canvas, c)"
| "draw_words (word # ws) point spacing f col canvas c =
     (case get_word_width word f c of (w, c1) \<Rightarrow>
        draw_words ws (fst point + (of_int w + spacing), snd point) spacing f col
          (canvas @ [(point, word, col, f)]) c1)"

text \<open>The \<^verbatim>\<open>for line in lines:\<close> loop.\<close>

fun draw_lines ::
  "text_line list \<Rightarrow> int \<Rightarrow> font \<Rightarrow> color \<Rightarrow> draw_call list \<Rightarrow> cache
   \<Rightarrow> draw_call list \<times> cache" where
  "draw_lines [] line_height f col canvas c = (canvas, c)"
| "draw_lines (line # ls) line_height f col canvas c =
     (let point = (of_int (fst (text_line.start_point line)),
                   of_int (snd (text_line.start_point line)) + of_int line_height * (8 / 10))
      in case single_word_block line c of (line', c1) \<Rightarrow>
           (case draw_words (words line') point (word_spacing line') f col canvas c1 of
              (canvas', c2) \<Rightarrow> draw_lines ls line_height f col canvas' c2))"

definition draw_text_lines ::
  "draw_call list \<Rightarrow> text_line list \<Rightarrow> font \<Rightarrow> color \<Rightarrow> cache \<Rightarrow> draw_call list \<times> cache" where
  "draw_text_lines canvas lines f col c =
     (case getbbox f ''A'' of (x0, y0, x1, y1) \<Rightarrow>
        (let line_height = y0 - y1 in draw_lines lines line_height f col canvas c))"

section \<open>The font-size search\<close>

text \<open>
  The variables of \<^verbatim>\<open>fit_text_to_image\<close> that its \<^verbatim>\<open>while\<close> loop reads and writes,
  the lines it prints (font size, lower, upper) and the cache.
\<close>

record search_state =
  s_lower :: rat
  s_upper :: rat
  s_font_size :: rat
  s_lines :: "text_line list"
  s_boundaries :: "boundary list"
  s_font :: "font option"
  s_printed :: "(rat \<times> rat \<times> rat) list"
  s_cache :: cache

text \<open>
  The \<^verbatim>\<open>for min_spacing in spacings:\<close> loop: print, scan the image with the row
  spacing \<^verbatim>\<open>int(font_size)\<close>, pack, and break when every boundary has its line and
  every word is placed.
\<close>

fun spacings_for ::
  "image \<Rightarrow> string \<Rightarrow> font \<Rightarrow> nat \<Rightarrow> rat list \<Rightarrow> search_state
   \<Rightarrow> (error + search_state) option" where
  "spacings_for im txt f total_words [] st = Some (Inr st)"
| "spacings_for im txt f total_words (min_spacing # rest) st =
     (let st1 = st\<lparr>s_printed := s_printed st @ [(s_font_size st, s_lower st, s_upper st)]\<rparr>
      in case get_text_boundaries im (py_int (s_font_size st1)) of
           None \<Rightarrow> None
         | Some (Inl e) \<Rightarrow> Some (Inl e)
         | Some (Inr bs) \<Rightarrow>
             (case align_text_to_boundaries txt bs f min_spacing (s_cache st1) of
                (ls, c') \<Rightarrow>
                  (let st2 = st1\<lparr>s_boundaries := bs, s_lines := ls, s_cache := c'\<rparr>
                   in if length ls = length bs \<and>
                         sum_list (map (\<lambda>line. length (words line)) ls) = total_words
                      then Some (Inr st2)
                      else spacings_for im txt f total_words rest st2)))"

text \<open>
  How an iteration of the \<^verbatim>\<open>while\<close> loop ends: with \<^verbatim>\<open>break\<close>, or by going back to
  the loop test (\<^verbatim>\<open>continue\<close>, or the end of the body).
\<close>

datatype flow = Break | Continue

text \<open>
  The \<^verbatim>\<open>if\<close> / \<^verbatim>\<open>elif\<close> / \<^verbatim>\<open>else\<close> after the spacing loop, with the final
  \<^verbatim>\<open>font_size = (upper + lower) / 2\<close> of the branches that reach it.
\<close>

definition adjust_window :: "nat \<Rightarrow> search_state \<Rightarrow> flow \<times> search_state" where
  "adjust_window total_words st =
     (if length (s_lines st) < length (s_boundaries st) then
        (if s_font_size st \<ge> s_upper st then
           (let st1 = st\<lparr>s_upper := s_upper st + (s_upper st - s_lower st) * 2\<rparr>;
                st2 = st1\<lparr>s_font_size := s_upper st1\<rparr>
            in (Continue, st2))
         else
           (let st1 = st\<lparr>s_lower := s_font_size st\<rparr>
            in (Continue, st1\<lparr>s_font_size := (s_upper st1 + s_lower st1) / 2\<rparr>)))
      else if sum_list (map (\<lambda>line. length (words line)) (s_lines st)) < total_words then
        (let st1 = st\<lparr>s_upper := s_font_size st\<rparr>
         in (Continue, st1\<lparr>s_font_size := (s_upper st1 + s_lower st1) / 2\<rparr>))
      else (Break, st))"

text \<open>One iteration of the \<^verbatim>\<open>while\<close> loop.\<close>

definition search_body ::
  "image \<Rightarrow> string \<Rightarrow> font_file \<Rightarrow> nat \<Rightarrow> search_state
   \<Rightarrow> (error + flow \<times> search_state) option" where
  "search_body im txt font_fp total_words st =
     (let spacings = map (\<lambda>i. i * s_font_size st)
                       [2 / 10, 3 / 10, 4 / 10, 5 / 10, 6 / 10, 7 / 10, 8 / 10];
          f = load_font font_fp (py_int (s_font_size st));
          st1 = st\<lparr>s_font := Some f\<rparr>
      in case spacings_for im txt f total_words spacings st1 of
           None \<Rightarrow> None
         | Some (Inl e) \<Rightarrow> Some (Inl e)
         | Some (Inr st2) \<Rightarrow> Some (Inr (adjust_window total_words st2)))"

text \<open>
  The loop \<^verbatim>\<open>while upper - lower > 0.5\<close>. Nothing bounds the number of its iterations
  in the source, so it returns an option.
\<close>

partial_function (option) search_while ::
  "image \<Rightarrow> string \<Rightarrow> font_file \<Rightarrow> nat \<Rightarrow> search_state \<Rightarrow> (error + search_state) option"
  where
  "search_while im txt font_fp total_words st =
     (if s_upper st - s_lower st > 1 / 2 then
        (case search_body im txt font_fp total_words st of
           None \<Rightarrow> None
         | Some (Inl e) \<Rightarrow> Some (Inl e)
         | Some (Inr (Break, st')) \<Rightarrow> Some (Inr st')
         | Some (Inr (Continue, st')) \<Rightarrow> search_while im txt font_fp total_words st')
      else Some (Inr st))"

text \<open>The variables as they are set before the loop.\<close>

definition initial_state :: "int \<Rightarrow> cache \<Rightarrow> search_state" where
  "initial_state scaled_width c =
     \<lparr>s_lower = 1, s_upper = of_int scaled_width / 10,
      s_font_size = of_int scaled_width / 10,
      s_lines = [], s_boundaries = [], s_font = None, s_printed = [], s_cache = c\<rparr>"

text \<open>
  \<^verbatim>\<open>fit_text_to_image\<close>. The image \<open>fp\<close> is already in mode RGBA. Pillow's
  \<^verbatim>\<open>Image.resize\<close> is the parameter \<open>resize\<close>. Dividing by a width of zero raises
  \<^verbatim>\<open>ZeroDivisionError\<close>; drawing with the font \<^verbatim>\<open>None\<close> would raise
  \<^verbatim>\<open>AttributeError\<close>. The result is the canvas, what was printed, and the cache after
  \<^verbatim>\<open>cache_clear\<close>. As in the renderer, \<^verbatim>\<open>DEBUG\<close> is unset.
\<close>

definition fit_text_to_image ::
  "(image \<Rightarrow> int \<times> int \<Rightarrow> image) \<Rightarrow> image \<Rightarrow> string \<Rightarrow> font_file \<Rightarrow> color \<Rightarrow> cache
   \<Rightarrow> (error + draw_call list \<times> (rat \<times> rat \<times> rat) list \<times> cache) option" where
  "fit_text_to_image resize fp txt font_fp col c =
     (if width fp = 0 then Some (Inl ZeroDivisionError)
      else
        (let image_ratio = (of_int (height fp) / of_int (width fp) :: rat);
             scaled_width = max 2000 (width fp);
             im = resize fp (scaled_width, py_int (of_int scaled_width * image_ratio));
             total_words = length (str_split txt)
         in case search_while im txt font_fp total_words (initial_state scaled_width c) of
              None \<Rightarrow> None
            | Some (Inl e) \<Rightarrow> Some (Inl e)
            | Some (Inr st) \<Rightarrow>
                (case s_font st of
                   None \<Rightarrow> Some (Inl AttributeError)
                 | Some f \<Rightarrow>
                     (case draw_text_lines [] (s_lines st) f col (s_cache st) of
                        (canvas, c1) \<Rightarrow>
                          Some (Inr (canvas, s_printed st, cache_clear c1))))))"

section \<open>Inputs for the renderer and the search\<close>

text \<open>
  \<open>span100\<close> is a boundary of length 100 that starts at column 10. \<open>blank_image\<close> has no
  opaque pixel. The row 200 of \<open>two_span_image\<close> has two opaque runs, the columns 0 to 400
  and the column 601; the row 200 of \<open>one_span_image\<close> has the first of them only. \<open>keep_pixels\<close> stands for \<^verbatim>\<open>Image.resize\<close> on an image that
  already has the requested size. \<open>mono_file\<close> is a font file whose glyphs are as wide as
  the font size.
\<close>

definition span100 :: boundary where
  "span100 = \<lparr>start_point = (10, 50), end_point = (110, 50)\<rparr>"

definition black :: color where
  "black = (0, 0, 0, 255)"

definition blank_image :: image where
  "blank_image = \<lparr>width = 2000, height = 2000, pixels = (\<lambda>xy. (0, 0, 0, 0))\<rparr>"

definition two_span_image :: image where
  "two_span_image =
     \<lparr>width = 2000, height = 201,
      pixels = (\<lambda>xy. if snd xy = 200 \<and> (0 \<le> fst xy \<and> fst xy \<le> 400 \<or> fst xy = 601)
                      then (0, 0, 0, 255) else (0, 0, 0, 0))\<rparr>"

definition keep_pixels :: "image \<Rightarrow> int \<times> int \<Rightarrow> image" where
  "keep_pixels im sz = im\<lparr>width := fst sz, height := snd sz\<rparr>"

definition mono_file :: font_file where
  "mono_file sz w = (0, 0, sz * int (length w), sz)"

definition one_span_image :: image where
  "one_span_image =
     \<lparr>width = 2000, height = 250,
      pixels = (\<lambda>xy. if snd xy = 200 \<and> 0 \<le> fst xy \<and> fst xy \<le> 400
                      then (0, 0, 0, 255) else (0, 0, 0, 0))\<rparr>"

section \<open>Search states that differ in the cache only\<close>

text \<open>
  \<open>same_but_cache\<close> relates two states of the search whose variables agree and whose
  caches both hold glyph widths of the fonts they name. \<open>warm_cache\<close> is such a cache
  with one entry.
\<close>

definition same_but_cache :: "search_state \<Rightarrow> search_state \<Rightarrow> bool" where
  "same_but_cache st st' =
     (st' = st\<lparr>s_cache := s_cache st'\<rparr> \<and> cache_ok (s_cache st) \<and> cache_ok (s_cache st'))"

definition warm_cache :: cache where
  "warm_cache = [(''a'', load_font mono_file 200) \<mapsto> 200]"

section \<open>The line packer: the cache, the word stream and the finalized lines\<close>

lemma cache_ok_empty: "cache_ok Map.empty"
  by (simp add: cache_ok_def)

lemma get_word_width_ok:
  assumes "cache_ok c"
  shows "fst (get_word_width w f c) = get_word_width_wrapped w f"
    and "cache_ok (snd (get_word_width w f c))"
  using assms by (auto simp: get_word_width_def cache_ok_def Let_def split: option.splits)

lemma word_widths_ok:
  assumes "cache_ok c"
  shows "fst (word_widths ws f c) = map (\<lambda>w. get_word_width_wrapped w f) ws
         \<and> cache_ok (snd (word_widths ws f c))"
  using assms
proof (induction ws arbitrary: c)
  case Nil
  then show ?case by simp
next
  case (Cons w ws)
  obtain v c1 where g: "get_word_width w f c = (v, c1)" by (cases "get_word_width w f c")
  from get_word_width_ok [OF Cons.prems, of w f] g
  have v: "v = get_word_width_wrapped w f" and c1: "cache_ok c1" by simp_all
  from Cons.IH [OF c1] show ?case by (auto simp: g v split: prod.splits)
qed

lemma words_width_ok:
  assumes "cache_ok c"
  shows "fst (words_width line c) = glyph_sum (font line) (words line)"
    and "cache_ok (snd (words_width line c))"
  using word_widths_ok [OF assms, of "words line" "font line"]
  by (auto simp: words_width_def glyph_sum_def split: prod.splits)

lemma total_width_ok:
  assumes "cache_ok c"
  shows "fst (total_width line c) =
           of_int (glyph_sum (font line) (words line))
           + word_spacing line * of_nat (length (words line))"
    and "cache_ok (snd (total_width line c))"
  using words_width_ok [OF assms, of line]
  by (auto simp: total_width_def split: prod.splits)

lemma fit_length_ok:
  assumes "cache_ok c"
  shows "fst (fit_length line len c) = justified line len"
    and "cache_ok (snd (fit_length line len c))"
  using words_width_ok [OF assms, of line] assms
  by (auto simp: fit_length_def justified_def Let_def split: prod.splits)

lemma align_while_words:
  "align_while line b f ms ws lines c = (lines', ws', c') \<Longrightarrow>
   \<exists>taken. ws = taken @ ws' \<and>
     ((lines' = lines \<and> taken = [] \<and> words line = [] \<and> ws' = []) \<or>
      (\<exists>l. lines' = lines @ [l] \<and> words l = words line @ taken))"
proof (induction ws arbitrary: line c)
  case Nil
  then show ?case
    by (auto simp: fit_length_def Let_def split: if_splits prod.splits)
next
  case (Cons word ws)
  obtain w c1 where g: "get_word_width word f c = (w, c1)" by (cases "get_word_width word f c")
  obtain tw c2 where t: "total_width line c1 = (tw, c2)" by (cases "total_width line c1")
  show ?case
  proof (cases "of_int w + ms + tw < of_int (boundary_length b) \<or>
               of_int w + ms + tw - of_int (boundary_length b) < ms * (1 / 4)")
    case True
    with Cons.prems g t
    have "align_while (add_word line word) b f ms ws lines c2 = (lines', ws', c')"
      by (simp add: Let_def)
    from Cons.IH [OF this] obtain taken where
      tk: "ws = taken @ ws'" and
      d: "(lines' = lines \<and> taken = [] \<and> words (add_word line word) = [] \<and> ws' = []) \<or>
          (\<exists>l. lines' = lines @ [l] \<and> words l = words (add_word line word) @ taken)"
      by blast
    from d have "\<exists>l. lines' = lines @ [l] \<and> words l = words line @ (word # taken)"
      by (auto simp: add_word_def)
    with tk show ?thesis by (intro exI [of _ "word # taken"]) simp
  next
    case False
    with Cons.prems g t show ?thesis
      by (auto simp: Let_def fit_length_def split: if_splits prod.splits intro!: exI [of _ "[]"])
  qed
qed

lemma align_for_words:
  "align_for bs f ms ws lines c = (lines', ws', c') \<Longrightarrow>
   \<exists>new. lines' = lines @ new \<and> concat (map words new) @ ws' = ws"
proof (induction bs arbitrary: ws lines c)
  case Nil
  then show ?case by simp
next
  case (Cons b bs)
  let ?line = "\<lparr>word_spacing = ms, start_point = boundary.start_point b, font = f, words = []\<rparr>"
  obtain l1 w1 c1 where a: "align_while ?line b f ms ws lines c = (l1, w1, c1)"
    by (cases "align_while ?line b f ms ws lines c")
  with Cons.prems have r: "align_for bs f ms w1 l1 c1 = (lines', ws', c')"
    by (simp add: Let_def)
  from Cons.IH [OF r] obtain new where n: "lines' = l1 @ new" "concat (map words new) @ ws' = w1"
    by blast
  from align_while_words [OF a] obtain taken where
    tk: "ws = taken @ w1" and
    d: "(l1 = lines \<and> taken = [] \<and> w1 = []) \<or> (\<exists>l. l1 = lines @ [l] \<and> words l = taken)"
    by auto
  from d show ?case
  proof
    assume "l1 = lines \<and> taken = [] \<and> w1 = []"
    with n tk show ?thesis by auto
  next
    assume "\<exists>l. l1 = lines @ [l] \<and> words l = taken"
    then obtain l where "l1 = lines @ [l]" "words l = taken" by blast
    with n tk show ?thesis by (intro exI [of _ "l # new"]) simp
  qed
qed

text \<open>
  Claim C10. Whatever the text, the boundaries, the font, the minimum spacing and the cache,
  the words of the returned lines, concatenated in order, followed by the words still
  pending when the \<^verbatim>\<open>for\<close> loop ends, are exactly \<^verbatim>\<open>text.split()\<close>: the placed
  words are a prefix of the word stream, the pending words are the matching suffix, and no
  word is duplicated, dropped or reordered.
\<close>

theorem packer_conserves_word_stream:
  "concat (map words (fst (align_for bs f ms (str_split text) [] c)))
     @ fst (snd (align_for bs f ms (str_split text) [] c)) = str_split text"
proof -
  obtain lines' ws' c' where a: "align_for bs f ms (str_split text) [] c = (lines', ws', c')"
    by (cases "align_for bs f ms (str_split text) [] c")
  from align_for_words [OF a] show ?thesis by (simp add: a)
qed


lemma glyph_sum_snoc:
  "glyph_sum f (ws @ [w]) = glyph_sum f ws + get_word_width_wrapped w f"
  by (simp add: glyph_sum_def)

lemma align_while_step:
  assumes "cache_ok c" "font line = f" "word_spacing line = ms"
  shows "\<exists>c2 c3. cache_ok c2 \<and>
           align_while line b f ms (word # ws) lines c =
           (if accepted f ms b (words line @ [word])
            then align_while (add_word line word) b f ms ws lines c2
            else (lines @ [justified line (of_int (boundary_length b))], word # ws, c3))"
proof -
  obtain w c1 where g: "get_word_width word f c = (w, c1)" by (cases "get_word_width word f c")
  obtain tw c2 where t: "total_width line c1 = (tw, c2)" by (cases "total_width line c1")
  from get_word_width_ok [OF assms(1), of word f] g
  have w: "w = get_word_width_wrapped word f" and c1: "cache_ok c1" by simp_all
  from total_width_ok [OF c1, of line] t assms
  have tw: "tw = of_int (glyph_sum f (words line)) + ms * of_nat (length (words line))"
    and c2: "cache_ok c2" by simp_all
  define nw where "nw = of_int w + ms + tw"
  have nw: "nw =
        of_int (glyph_sum f (words line @ [word])) + ms * of_nat (length (words line @ [word]))"
    by (simp add: nw_def w tw glyph_sum_snoc algebra_simps)
  obtain l' c3 where fl: "fit_length line (of_int (boundary_length b)) c2 = (l', c3)"
    by (cases "fit_length line (of_int (boundary_length b)) c2")
  from fit_length_ok(1) [OF c2, of line "of_int (boundary_length b)"] fl
  have l': "l' = justified line (of_int (boundary_length b))" by simp
  have "align_while line b f ms (word # ws) lines c =
          (if nw < of_int (boundary_length b) \<or> nw - of_int (boundary_length b) < ms * (1 / 4)
           then align_while (add_word line word) b f ms ws lines c2
           else (lines @ [l'], word # ws, c3))"
    unfolding nw_def by (simp only: align_while.simps g t fl prod.case Let_def)
  then have "align_while line b f ms (word # ws) lines c =
           (if accepted f ms b (words line @ [word])
            then align_while (add_word line word) b f ms ws lines c2
            else (lines @ [justified line (of_int (boundary_length b))], word # ws, c3))"
    unfolding accepted_def Let_def nw l' .
  with c2 show ?thesis by blast
qed


lemma align_while_cache_ok:
  "cache_ok c \<Longrightarrow> cache_ok (snd (snd (align_while line b f ms ws lines c)))"
proof (induction ws arbitrary: line c)
  case Nil
  obtain l' c1 where fl: "fit_length line (of_int (boundary_length b)) c = (l', c1)"
    by (cases "fit_length line (of_int (boundary_length b)) c")
  from fit_length_ok(2) [OF Nil, of line "of_int (boundary_length b)"] fl
  have "cache_ok c1" by simp
  with Nil show ?case by (simp add: fl)
next
  case (Cons word ws)
  obtain w c1 where g: "get_word_width word f c = (w, c1)" by (cases "get_word_width word f c")
  obtain tw c2 where t: "total_width line c1 = (tw, c2)" by (cases "total_width line c1")
  obtain l' c3 where fl: "fit_length line (of_int (boundary_length b)) c2 = (l', c3)"
    by (cases "fit_length line (of_int (boundary_length b)) c2")
  from get_word_width_ok(2) [OF Cons.prems, of word f] g have c1: "cache_ok c1" by simp
  from total_width_ok(2) [OF c1, of line] t have c2: "cache_ok c2" by simp
  from fit_length_ok(2) [OF c2, of line "of_int (boundary_length b)"] fl
  have c3: "cache_ok c3" by simp
  define nw where "nw = of_int w + ms + tw"
  have eq: "align_while line b f ms (word # ws) lines c =
          (if nw < of_int (boundary_length b) \<or> nw - of_int (boundary_length b) < ms * (1 / 4)
           then align_while (add_word line word) b f ms ws lines c2
           else (lines @ [l'], word # ws, c3))"
    unfolding nw_def by (simp only: align_while.simps g t fl prod.case Let_def)
  show ?case
  proof (cases "nw < of_int (boundary_length b) \<or> nw - of_int (boundary_length b) < ms * (1 / 4)")
    case True
    then show ?thesis using Cons.IH [OF c2, of "add_word line word"] by (simp only: eq if_True)
  next
    case False
    then show ?thesis using c3 by (simp only: eq if_False snd_conv)
  qed
qed

lemma align_while_packed:
  assumes "cache_ok c" "font line = f" "word_spacing line = ms"
    and "text_line.start_point line = boundary.start_point b"
    and "words line = [] \<or> accepted f ms b (words line)"
    and "align_while line b f ms ws lines c = (lines', ws', c')"
  shows "(lines' = lines \<and> ws' = []) \<or> (\<exists>l. lines' = lines @ [l] \<and> packed f ms b l)"
  using assms
proof (induction ws arbitrary: line c)
  case Nil
  obtain l' c1 where fl: "fit_length line (of_int (boundary_length b)) c = (l', c1)"
    by (cases "fit_length line (of_int (boundary_length b)) c")
  from fit_length_ok(1) [OF Nil(1), of line "of_int (boundary_length b)"] fl
  have l': "l' = justified line (of_int (boundary_length b))" by simp
  show ?case
  proof (cases "words line = []")
    case True
    with Nil(6) show ?thesis by simp
  next
    case False
    with Nil(6) have "lines' = lines @ [justified line (of_int (boundary_length b))]"
      by (simp add: fl l')
    moreover from False Nil(2-5) have "packed f ms b (justified line (of_int (boundary_length b)))"
      by (simp add: packed_def justified_def)
    ultimately show ?thesis by blast
  qed
next
  case (Cons word ws)
  from align_while_step [OF Cons.prems(1-3), of b word ws lines]
  obtain c2 c3 where c2: "cache_ok c2" and
    step: "align_while line b f ms (word # ws) lines c =
           (if accepted f ms b (words line @ [word])
            then align_while (add_word line word) b f ms ws lines c2
            else (lines @ [justified line (of_int (boundary_length b))], word # ws, c3))"
    by blast
  show ?case
  proof (cases "accepted f ms b (words line @ [word])")
    case True
    with step Cons.prems(6)
    have r: "align_while (add_word line word) b f ms ws lines c2 = (lines', ws', c')" by simp
    show ?thesis
      by (rule Cons.IH [OF c2 _ _ _ _ r])
         (use Cons.prems True in \<open>simp_all add: add_word_def\<close>)
  next
    case False
    with step Cons.prems(6)
    have "lines' = lines @ [justified line (of_int (boundary_length b))]" by simp
    moreover from Cons.prems(2-5)
    have "packed f ms b (justified line (of_int (boundary_length b)))"
      by (simp add: packed_def justified_def)
    ultimately show ?thesis by blast
  qed
qed

lemma align_for_nil: "align_for bs f ms [] lines c = (lines, [], c)"
  by (induction bs) (simp_all add: Let_def)

lemma align_for_cache_ok:
  "cache_ok c \<Longrightarrow> cache_ok (snd (snd (align_for bs f ms ws lines c)))"
proof (induction bs arbitrary: ws lines c)
  case Nil
  then show ?case by simp
next
  case (Cons b bs)
  let ?line = "\<lparr>word_spacing = ms, start_point = boundary.start_point b, font = f, words = []\<rparr>"
  obtain l1 w1 c1 where a: "align_while ?line b f ms ws lines c = (l1, w1, c1)"
    by (cases "align_while ?line b f ms ws lines c")
  from align_while_cache_ok [OF Cons.prems, of ?line b f ms ws lines] a
  have "cache_ok c1" by simp
  from Cons.IH [OF this] show ?case by (simp add: a Let_def)
qed

lemma align_for_packed:
  assumes "cache_ok c" and "align_for bs f ms ws lines c = (lines', ws', c')"
  shows "\<exists>new. lines' = lines @ new \<and> length new \<le> length bs \<and>
           (\<forall>i<length new. packed f ms (bs ! i) (new ! i))"
  using assms
proof (induction bs arbitrary: ws lines c)
  case Nil
  then show ?case by simp
next
  case (Cons b bs)
  let ?line = "\<lparr>word_spacing = ms, start_point = boundary.start_point b, font = f, words = []\<rparr>"
  obtain l1 w1 c1 where a: "align_while ?line b f ms ws lines c = (l1, w1, c1)"
    by (cases "align_while ?line b f ms ws lines c")
  from align_while_cache_ok [OF Cons.prems(1), of ?line b f ms ws lines] a
  have c1: "cache_ok c1" by simp
  from Cons.prems(2) a have r: "align_for bs f ms w1 l1 c1 = (lines', ws', c')"
    by (simp add: Let_def)
  have "(l1 = lines \<and> w1 = []) \<or> (\<exists>l. l1 = lines @ [l] \<and> packed f ms b l)"
    by (rule align_while_packed [OF Cons.prems(1) _ _ _ _ a]) simp_all
  then show ?case
  proof
    assume e: "l1 = lines \<and> w1 = []"
    with r align_for_nil [of bs f ms lines c1] have "lines' = lines" by simp
    then show ?thesis by (intro exI [of _ "[]"]) simp
  next
    assume "\<exists>l. l1 = lines @ [l] \<and> packed f ms b l"
    then obtain l where l: "l1 = lines @ [l]" "packed f ms b l" by blast
    from Cons.IH [OF c1 r] obtain new where
      n: "lines' = l1 @ new" "length new \<le> length bs"
         "\<forall>i<length new. packed f ms (bs ! i) (new ! i)" by blast
    have "\<forall>i<length (l # new). packed f ms ((b # bs) ! i) ((l # new) ! i)"
    proof (intro allI impI)
      fix i assume "i < length (l # new)"
      then show "packed f ms ((b # bs) ! i) ((l # new) ! i)"
        using l(2) n(3) by (cases i) simp_all
    qed
    with n l show ?thesis by (intro exI [of _ "l # new"]) simp
  qed
qed


lemma mono_width: "get_word_width_wrapped w mono_font = 10 * int (length w)"
  by (simp add: get_word_width_wrapped_def mono_font_def)

lemma str_split_ab_cd: "str_split ''ab cd'' = [''ab'', ''cd'']"
  by (simp add: str_split_def isspace_def)

text \<open>
  Claim C2, evaluated on the code. The line holds the words \<open>ab\<close> and \<open>cd\<close>, each 20
  pixels wide, with a word spacing of 5. \<^verbatim>\<open>total_width\<close> is 50: it multiplies the
  spacing by the number of words (lemma \<open>total_width_ok\<close> for every line). The claimed
  value, with one gap less than there are words, is 45.
\<close>

theorem total_width_two_words:
  "fst (total_width two_words Map.empty) = 50 \<and>
   of_int (fst (words_width two_words Map.empty))
     + word_spacing two_words * (of_nat (length (words two_words)) - 1) = (45 :: rat)"
  by (simp add: total_width_def words_width_def two_words_def get_word_width_def mono_width)

lemma glyph_sum_member:
  assumes "\<forall>w\<in>set ws. 0 \<le> get_word_width_wrapped w f" "w \<in> set ws"
  shows "get_word_width_wrapped w f \<le> glyph_sum f ws"
  using assms
proof (induction ws)
  case Nil
  then show ?case by simp
next
  case (Cons a ws)
  have nn: "0 \<le> glyph_sum f ws"
    unfolding glyph_sum_def using Cons.prems(1) by (intro sum_list_nonneg) auto
  show ?case
  proof (cases "w = a")
    case True
    with nn show ?thesis by (simp add: glyph_sum_def)
  next
    case False
    with Cons have "get_word_width_wrapped w f \<le> glyph_sum f ws" by simp
    moreover from Cons.prems(1) have "0 \<le> get_word_width_wrapped a f" by simp
    ultimately show ?thesis by (simp add: glyph_sum_def)
  qed
qed

lemma accepted_sum_less:
  assumes "accepted f ms b ws" "ws \<noteq> []" "0 \<le> ms"
  shows "glyph_sum f ws < boundary_length b"
proof -
  let ?g = "of_int (glyph_sum f ws) :: rat" and ?L = "of_int (boundary_length b) :: rat"
  let ?n = "of_nat (length ws) :: rat"
  from assms(2) have "1 \<le> length ws" by (cases ws) simp_all
  then have n: "1 \<le> ?n" by simp
  from n assms(3) have "ms * 1 \<le> ms * ?n" by (rule mult_left_mono)
  then have m: "ms \<le> ms * ?n" by simp
  from assms(1) have "?g + ms * ?n < ?L \<or> ?g + ms * ?n - ?L < ms * (1 / 4)"
    by (simp add: accepted_def Let_def)
  with m assms(3) have "?g < ?L" by auto
  then show ?thesis by simp
qed


lemma align_text_lines_packed:
  assumes "cache_ok c"
  shows "length (fst (align_text_to_boundaries text bs f ms c)) \<le> length bs \<and>
         (\<forall>i<length (fst (align_text_to_boundaries text bs f ms c)).
            packed f ms (bs ! i) (fst (align_text_to_boundaries text bs f ms c) ! i))"
proof -
  obtain lines' ws' c' where a: "align_for bs f ms (str_split text) [] c = (lines', ws', c')"
    by (cases "align_for bs f ms (str_split text) [] c")
  from align_for_packed [OF assms a] show ?thesis
    by (auto simp: align_text_to_boundaries_def a)
qed

lemma align_text_words_subset:
  "l \<in> set (fst (align_text_to_boundaries text bs f ms c)) \<Longrightarrow>
   set (words l) \<subseteq> set (str_split text)"
proof -
  assume l: "l \<in> set (fst (align_text_to_boundaries text bs f ms c))"
  obtain lines' ws' c' where a: "align_for bs f ms (str_split text) [] c = (lines', ws', c')"
    by (cases "align_for bs f ms (str_split text) [] c")
  from align_for_words [OF a] have "concat (map words lines') @ ws' = str_split text" by simp
  then have "set (concat (map words lines')) \<subseteq> set (str_split text)"
    by (metis set_append sup_ge1)
  with l show ?thesis by (auto simp: align_text_to_boundaries_def a)
qed

text \<open>
  Claim C7. With a minimum spacing that is not negative and glyph widths that are not
  negative, every returned line has its own boundary (line \<open>i\<close> was filled against
  boundary \<open>i\<close>) and no word of the line is wider than that boundary is long.
\<close>

theorem packer_word_not_wider_than_boundary:
  assumes "cache_ok c" and "0 \<le> min_spacing"
    and "\<forall>w\<in>set (str_split text). 0 \<le> get_word_width_wrapped w f"
  shows "length (fst (align_text_to_boundaries text bs f min_spacing c)) \<le> length bs \<and>
         (\<forall>i<length (fst (align_text_to_boundaries text bs f min_spacing c)).
            \<forall>w\<in>set (words (fst (align_text_to_boundaries text bs f min_spacing c) ! i)).
              get_word_width_wrapped w f \<le> boundary_length (bs ! i))"
proof -
  let ?lines = "fst (align_text_to_boundaries text bs f min_spacing c)"
  note p = align_text_lines_packed [OF assms(1), of "text" bs f min_spacing]
  have "get_word_width_wrapped w f \<le> boundary_length (bs ! i)"
    if i: "i < length ?lines" and w: "w \<in> set (words (?lines ! i))" for i w
  proof -
    let ?l = "?lines ! i"
    from i have mem: "?l \<in> set ?lines" by simp
    from p i have pk: "packed f min_spacing (bs ! i) ?l" by blast
    from w have ne: "words ?l \<noteq> []" by auto
    with pk have acc: "accepted f min_spacing (bs ! i) (words ?l)" by (simp add: packed_def)
    from align_text_words_subset [OF mem] assms(3)
    have nn: "\<forall>w\<in>set (words ?l). 0 \<le> get_word_width_wrapped w f" by blast
    from glyph_sum_member [OF nn w] accepted_sum_less [OF acc ne assms(2)]
    show ?thesis by linarith
  qed
  with p show ?thesis by blast
qed

theorem packer_word_not_wider_than_boundary_witness:
  "cache_ok Map.empty \<and> (0::rat) \<le> 5 \<and>
   list_all (\<lambda>w. 0 \<le> get_word_width_wrapped w mono_font) (str_split ''ab cd'') \<and>
   map words (fst (align_text_to_boundaries ''ab cd'' [span60] mono_font 5 Map.empty))
     = [[''ab'', ''cd'']] \<and>
   list_all (\<lambda>w. get_word_width_wrapped w mono_font \<le> boundary_length ([span60] ! 0))
     (words (fst (align_text_to_boundaries ''ab cd'' [span60] mono_font 5 Map.empty) ! 0))"
proof -
  have h: "\<forall>w\<in>set (str_split ''ab cd''). 0 \<le> get_word_width_wrapped w mono_font"
    by (simp add: mono_width)
  have ne: "map words (fst (align_text_to_boundaries ''ab cd'' [span60] mono_font 5 Map.empty))
     = [[''ab'', ''cd'']]"
    by (simp add: align_text_to_boundaries_def str_split_ab_cd Let_def get_word_width_def
        mono_width total_width_def words_width_def add_word_def span60_def boundary_length_def
        fit_length_def)
  then have len: "0 < length (fst (align_text_to_boundaries ''ab cd'' [span60] mono_font 5
      Map.empty))"
    by (cases "fst (align_text_to_boundaries ''ab cd'' [span60] mono_font 5 Map.empty)")
       simp_all
  have "(0::rat) \<le> 5" by simp
  from packer_word_not_wider_than_boundary [OF cache_ok_empty this h, of "[span60]"] len
  have "\<forall>w\<in>set (words (fst (align_text_to_boundaries ''ab cd'' [span60] mono_font 5
      Map.empty) ! 0)). get_word_width_wrapped w mono_font \<le> boundary_length ([span60] ! 0)"
    by blast
  with h ne cache_ok_empty show ?thesis by (simp only: list_all_iff) simp
qed

lemma finalized_line_total_width:
  assumes "cache_ok c" and "0 \<le> min_spacing"
    and "i < length (fst (align_text_to_boundaries text bs f min_spacing c))"
    and "l = fst (align_text_to_boundaries text bs f min_spacing c) ! i"
    and "2 \<le> length (words l)" and "cache_ok c'"
  shows "of_int (glyph_sum f (words l)) + word_spacing l * (of_nat (length (words l)) - 1)
           = of_int (boundary_length (bs ! i))"
    and "0 < word_spacing l"
    and "fst (total_width l c') = of_int (boundary_length (bs ! i)) + word_spacing l"
proof -
  from align_text_lines_packed [OF assms(1), of "text" bs f min_spacing] assms(3,4)
  have pk: "packed f min_spacing (bs ! i) l" by blast
  from assms(5) have ne: "words l \<noteq> []" by auto
  with pk have acc: "accepted f min_spacing (bs ! i) (words l)" by (simp add: packed_def)
  let ?g = "of_int (glyph_sum f (words l)) :: rat"
  let ?L = "of_int (boundary_length (bs ! i)) :: rat"
  let ?n = "of_nat (length (words l)) :: rat"
  from assms(5) have n: "0 < ?n - 1" by simp
  from pk assms(5) have sp: "word_spacing l = (?L - ?g) / (?n - 1)"
    by (simp add: packed_def)
  from n sp show j: "?g + word_spacing l * (?n - 1) = ?L" by simp
  from accepted_sum_less [OF acc ne assms(2)] have "?g < ?L" by simp
  with n sp show "0 < word_spacing l" by simp
  from pk have "font l = f" by (simp add: packed_def)
  with total_width_ok(1) [OF assms(6), of l]
  have "fst (total_width l c') = ?g + word_spacing l * ?n" by simp
  with j show "fst (total_width l c') = ?L + word_spacing l" by (simp add: algebra_simps)
qed

text \<open>
  Claim C1, evaluated on the code. The text \<open>ab cd\<close> is packed into one boundary of length
  60 with a minimum spacing of 5. Both words are accepted, \<^verbatim>\<open>fit_length\<close> sets the
  spacing to 20, and \<^verbatim>\<open>total_width\<close> of the finalized line is 80, not 60. Lemma
  \<open>finalized_line_total_width\<close> above gives the general picture: for every finalized
  line of two or more words the word widths plus one spacing per gap are the boundary's
  length and the spacing is positive, while \<^verbatim>\<open>total_width\<close> exceeds the boundary's
  length by one spacing.
\<close>

theorem finalized_line_wider_than_boundary:
  "(case align_text_to_boundaries ''ab cd'' [span60] mono_font 5 Map.empty of
      (lines, c) \<Rightarrow>
        map words lines = [[''ab'', ''cd'']] \<and> map word_spacing lines = [20] \<and>
        map (\<lambda>l. fst (total_width l c)) lines = [80]) \<and>
   boundary_length span60 = 60"
  by (simp add: align_text_to_boundaries_def str_split_ab_cd Let_def get_word_width_def
        mono_width total_width_def words_width_def add_word_def span60_def boundary_length_def
        fit_length_def)



section \<open>The boundary scanner returns, and what it emits\<close>

lemma getpixel_inside:
  "0 \<le> x \<Longrightarrow> x < width im \<Longrightarrow> 0 \<le> y \<Longrightarrow> y < height im \<Longrightarrow>
   getpixel im (x, y) = Inr (pixels im (x, y))"
  by (simp add: getpixel_def)

lemma rev_upto_step: "lo \<le> hi \<Longrightarrow> rev [lo..hi] = hi # rev [lo..hi - 1]"
  by (simp add: upto_rec2)

lemma find_pixel_for_spec:
  assumes "0 \<le> lo" "hi < width im" "0 \<le> y" "y < height im"
  shows "\<exists>r. find_pixel_for im y ft (rev [lo..hi]) x = Inr r \<and>
           (if hi < lo then r = x
            else lo \<le> r \<and> r \<le> hi + 1 \<and> (target_at im y ft hi \<longrightarrow> r \<le> hi) \<and>
                 (\<forall>i. r \<le> i \<and> i \<le> hi \<longrightarrow> target_at im y ft i))"
  using assms
proof (induction "nat (hi + 1 - lo)" arbitrary: hi x)
  case 0
  then have "hi < lo" by simp
  then show ?case by simp
next
  case (Suc n)
  then have le: "lo \<le> hi" by linarith
  from le Suc.prems have px: "getpixel im (hi, y) = Inr (pixels im (hi, y))"
    by (intro getpixel_inside) simp_all
  show ?case
  proof (cases "target_at im y ft hi")
    case False
    with le px show ?thesis
      by (auto simp: rev_upto_step target_at_def)
  next
    case True
    from Suc.hyps(2) have n: "n = nat (hi - 1 + 1 - lo)" by linarith
    from Suc.prems have "hi - 1 < width im" by simp
    from Suc.hyps(1) [OF n Suc.prems(1) this Suc.prems(3,4), of hi]
    obtain r where r: "find_pixel_for im y ft (rev [lo..hi - 1]) hi = Inr r"
      and rr: "if hi - 1 < lo then r = hi
            else lo \<le> r \<and> r \<le> hi - 1 + 1 \<and> (target_at im y ft (hi - 1) \<longrightarrow> r \<le> hi - 1) \<and>
                 (\<forall>i. r \<le> i \<and> i \<le> hi - 1 \<longrightarrow> target_at im y ft i)"
      by blast
    have eq: "find_pixel_for im y ft (rev [lo..hi]) x = Inr r"
      using True le px r by (simp add: rev_upto_step target_at_def)
    have "lo \<le> r \<and> r \<le> hi \<and> (\<forall>i. r \<le> i \<and> i \<le> hi \<longrightarrow> target_at im y ft i)"
    proof (cases "hi - 1 < lo")
      case True
      with rr le have "r = hi" "lo = hi" by simp_all
      with \<open>target_at im y ft hi\<close> show ?thesis by auto
    next
      case False
      with rr have a: "lo \<le> r" "r \<le> hi" "\<forall>i. r \<le> i \<and> i \<le> hi - 1 \<longrightarrow> target_at im y ft i"
        by simp_all
      have "target_at im y ft i" if "r \<le> i \<and> i \<le> hi" for i
      proof (cases "i = hi")
        case True
        with \<open>target_at im y ft hi\<close> show ?thesis by simp
      next
        case False
        with that a(3) show ?thesis by simp
      qed
      with a show ?thesis by blast
    qed
    with eq le show ?thesis by auto
  qed
qed

lemma find_pixel_while_spec:
  assumes "0 < step" "0 \<le> x" "0 \<le> y" "y < height im"
  shows "\<exists>r. find_pixel_while im x y step ft = Some (Inr r) \<and> 0 \<le> r \<and>
           (width im \<le> x \<longrightarrow> r = x) \<and>
           (r < width im \<longrightarrow> target_at im y ft r \<and>
              (\<forall>i. r \<le> i \<and> i \<le> x \<longrightarrow> target_at im y ft i))"
  using assms
proof (induction "nat (width im - x)" arbitrary: x rule: less_induct)
  case less
  show ?case
  proof (cases "x < width im")
    case False
    then show ?thesis using less.prems by (subst find_pixel_while.simps) simp
  next
    case True
    with less.prems have px: "getpixel im (x, y) = Inr (pixels im (x, y))"
      by (intro getpixel_inside) simp_all
    show ?thesis
    proof (cases "target_at im y ft x")
      case tg: True
      let ?lo = "max (- 1) (x - step) + 1"
      from less.prems have lo: "0 \<le> ?lo" "\<not> x < ?lo" by simp_all
      from find_pixel_for_spec [OF lo(1) True less.prems(3,4), of ft x] lo(2) tg
      obtain r where r: "find_pixel_for im y ft (rev [?lo..x]) x = Inr r"
        and rr: "?lo \<le> r" "r \<le> x" "\<forall>i. r \<le> i \<and> i \<le> x \<longrightarrow> target_at im y ft i"
        by auto
      have "find_pixel_while im x y step ft = Some (Inr r)"
        using True px tg r by (subst find_pixel_while.simps) (simp add: target_at_def)
      moreover from rr lo have "0 \<le> r" by linarith
      moreover from rr have "target_at im y ft r" by simp
      ultimately show ?thesis using rr True by auto
    next
      case nt: False
      have eq: "find_pixel_while im x y step ft = find_pixel_while im (x + step) y step ft"
        using True px nt by (subst find_pixel_while.simps) (simp add: target_at_def)
      from True less.prems have m: "nat (width im - (x + step)) < nat (width im - x)" by linarith
      from less.prems have "0 \<le> x + step" by simp
      from less.hyps [OF m less.prems(1) this less.prems(3,4)]
      obtain r where r: "find_pixel_while im (x + step) y step ft = Some (Inr r)" "0 \<le> r"
        and rr: "r < width im \<longrightarrow> target_at im y ft r \<and>
              (\<forall>i. r \<le> i \<and> i \<le> x + step \<longrightarrow> target_at im y ft i)"
        by blast
      have "\<not> (r \<le> x)" if "r < width im"
      proof
        assume "r \<le> x"
        with rr that less.prems(1) have "target_at im y ft x" by simp
        with nt show False by simp
      qed
      with r rr eq True show ?thesis by auto
    qed
  qed
qed

lemma find_pixel_spec:
  assumes "0 < step" "0 \<le> x" "0 \<le> y" "y < height im"
  shows "\<exists>r. find_pixel im x y step ft = Some (Inr (r, y)) \<and> r \<le> width im \<and>
           (width im \<le> x \<longrightarrow> r = width im) \<and>
           (r < width im \<longrightarrow> 0 \<le> r \<and> target_at im y ft r \<and>
              (\<forall>i. r \<le> i \<and> i \<le> x \<longrightarrow> target_at im y ft i))"
proof -
  from find_pixel_while_spec [OF assms, of ft]
  obtain r where r: "find_pixel_while im x y step ft = Some (Inr r)" "0 \<le> r"
    "width im \<le> x \<longrightarrow> r = x"
    and rr: "r < width im \<longrightarrow> target_at im y ft r \<and>
              (\<forall>i. r \<le> i \<and> i \<le> x \<longrightarrow> target_at im y ft i)"
    by blast
  show ?thesis
  proof (cases "r < width im")
    case True
    with r assms have px: "getpixel im (r, y) = Inr (pixels im (r, y))"
      by (intro getpixel_inside) simp_all
    from True rr have "target_at im y ft r" by simp
    with True px r have "find_pixel im x y step ft = Some (Inr (r, y))"
      by (simp add: find_pixel_def target_at_def)
    with True r rr show ?thesis by auto
  next
    case False
    with r have "find_pixel im x y step ft = Some (Inr (width im, y))"
      by (simp add: find_pixel_def)
    then show ?thesis by auto
  qed
qed


lemma opaque_not_transparent:
  "target_at im y False x \<Longrightarrow> target_at im y True x \<Longrightarrow> False"
  by (auto simp: target_at_def is_target_pixel_def split: prod.splits)

lemma boundaries_while_spec:
  assumes "0 < step" "0 \<le> x" "0 \<le> y" "y < height im" "list_all (span_ok im) bs"
  shows "\<exists>bs'. boundaries_while im x y step bs = Some (Inr bs') \<and> list_all (span_ok im) bs'"
  using assms
proof (induction "nat (width im - x)" arbitrary: x bs rule: less_induct)
  case less
  from find_pixel_spec [OF less.prems(1-4), of False]
  obtain x1 where x1: "find_pixel im x y step False = Some (Inr (x1, y))" "x1 \<le> width im"
    "width im \<le> x \<longrightarrow> x1 = width im"
    and x1t: "x1 < width im \<longrightarrow> 0 \<le> x1 \<and> target_at im y False x1 \<and>
              (\<forall>i. x1 \<le> i \<and> i \<le> x \<longrightarrow> target_at im y False i)"
    by blast
  show ?case
  proof (cases "x1 = width im")
    case True
    with x1 less.prems(5) show ?thesis
      by (subst boundaries_while.simps) simp
  next
    case False
    with x1 have lt: "x1 < width im" by simp
    with x1t have p1: "0 \<le> x1" "target_at im y False x1"
      "\<forall>i. x1 \<le> i \<and> i \<le> x \<longrightarrow> target_at im y False i" by simp_all
    from lt x1(3) have xw: "x < width im" by auto
    from p1(1) have "0 \<le> x1 + 1" by simp
    from find_pixel_spec [OF less.prems(1) this less.prems(3,4), of True]
    obtain e where e: "find_pixel im (x1 + 1) y step True = Some (Inr (e, y))" "e \<le> width im"
      and et: "e < width im \<longrightarrow> 0 \<le> e \<and> target_at im y True e \<and>
              (\<forall>i. e \<le> i \<and> i \<le> x1 + 1 \<longrightarrow> target_at im y True i)"
      by blast
    have e1: "x1 + 1 \<le> e"
    proof (rule ccontr)
      assume "\<not> x1 + 1 \<le> e"
      then have "e \<le> x1" by simp
      with lt et have "target_at im y True x1" by simp
      with p1(2) show False by (rule opaque_not_transparent)
    qed
    have ex: "x < e"
    proof (rule ccontr)
      assume "\<not> x < e"
      then have "e \<le> x" by simp
      with xw et have "target_at im y True e" by simp
      moreover from e1 \<open>e \<le> x\<close> p1(3) have "target_at im y False e" by simp
      ultimately show False using opaque_not_transparent by blast
    qed
    let ?b = "\<lparr>start_point = (x1, y), end_point = (e - 1, y)\<rparr>"
    from e1 e(2) p1(1) have "span_ok im ?b" by (simp add: span_ok_def)
    with less.prems(5) have ok: "list_all (span_ok im) (bs @ [?b])" by simp
    from ex xw e(2) have m: "nat (width im - e) < nat (width im - x)" by linarith
    from ex less.prems(2) have "0 \<le> e" by simp
    from less.hyps [OF m less.prems(1) this less.prems(3,4) ok]
    obtain bs' where "boundaries_while im e y step (bs @ [?b]) = Some (Inr bs')"
      "list_all (span_ok im) bs'" by blast
    with x1 e False show ?thesis
      by (subst boundaries_while.simps) simp
  qed
qed

lemma boundaries_for_spec:
  assumes "0 < step" "list_all (\<lambda>y. 0 \<le> y \<and> y < height im) ys" "list_all (span_ok im) bs"
  shows "\<exists>bs'. boundaries_for im ys step bs = Some (Inr bs') \<and> list_all (span_ok im) bs'"
  using assms
proof (induction ys arbitrary: bs)
  case Nil
  then show ?case by simp
next
  case (Cons y ys)
  from Cons.prems(2) have y: "0 \<le> y" "y < height im" by simp_all
  have "(0::int) \<le> 0" by simp
  from boundaries_while_spec [OF Cons.prems(1) this y Cons.prems(3)]
  obtain b1 where b1: "boundaries_while im 0 y step bs = Some (Inr b1)" "list_all (span_ok im) b1"
    by blast
  from Cons.prems(2) have "list_all (\<lambda>y. 0 \<le> y \<and> y < height im) ys" by simp
  from Cons.IH [OF Cons.prems(1) this b1(2)] b1(1) show ?case by simp
qed

lemma range3_rows:
  assumes "0 < step"
  shows "\<exists>ys. range3 step h step = Inr ys \<and> list_all (\<lambda>y. 0 \<le> y \<and> y < h) ys"
proof -
  let ?n = "(h - step - 1) div step"
  have "0 \<le> step + k * step \<and> step + k * step < h" if k: "0 \<le> k" "k \<le> ?n" for k
  proof -
    from k(2) assms have "k * step \<le> ?n * step" by (simp add: mult_right_mono)
    also from assms have "?n * step \<le> h - step - 1"
      using div_mult_mod_eq [of "h - step - 1" step] pos_mod_sign [of step "h - step - 1"]
      by linarith
    finally have "step + k * step < h" by simp
    moreover from k(1) assms have "0 \<le> k * step" by simp
    ultimately show ?thesis using assms by simp
  qed
  then have "list_all (\<lambda>y. 0 \<le> y \<and> y < h) (map (\<lambda>k. step + k * step) [0..?n])"
    by (simp add: list_all_iff)
  with assms show ?thesis by (simp add: range3_def)
qed

text \<open>
  Claim C3, as amended. For every image and every positive row spacing the scanner returns
  without raising, and every boundary it emits ends at or after its start, so that its
  length is the difference of its end and start columns and is not negative, and ends at a
  column that is at most the image's width. (The end column is in fact below the width:
  \<open>span_ok\<close> in lemma \<open>boundaries_for_spec\<close>.)
\<close>

theorem scanner_boundaries_not_negative:
  assumes "0 < boundaries_spacing"
  shows "\<exists>bs. get_text_boundaries im boundaries_spacing = Some (Inr bs) \<and>
           list_all (\<lambda>b. 0 \<le> fst (boundary.end_point b) - fst (boundary.start_point b) \<and>
                         boundary_length b
                           = fst (boundary.end_point b) - fst (boundary.start_point b) \<and>
                         fst (boundary.end_point b) \<le> width im) bs"
proof -
  from range3_rows [OF assms, of "height im"] obtain ys where
    ys: "range3 boundaries_spacing (height im) boundaries_spacing = Inr ys"
        "list_all (\<lambda>y. 0 \<le> y \<and> y < height im) ys" by blast
  have "list_all (span_ok im) []" by simp
  from boundaries_for_spec [OF assms ys(2) this]
  obtain bs where bs: "boundaries_for im ys boundaries_spacing [] = Some (Inr bs)"
    "list_all (span_ok im) bs" by blast
  have "0 \<le> fst (boundary.end_point b) - fst (boundary.start_point b) \<and>
        boundary_length b = fst (boundary.end_point b) - fst (boundary.start_point b) \<and>
        fst (boundary.end_point b) \<le> width im" if "span_ok im b" for b
    using that by (simp add: span_ok_def boundary_length_def)
  with bs(2) have "list_all (\<lambda>b. 0 \<le> fst (boundary.end_point b) - fst (boundary.start_point b) \<and>
                         boundary_length b
                           = fst (boundary.end_point b) - fst (boundary.start_point b) \<and>
                         fst (boundary.end_point b) \<le> width im) bs"
    by (simp add: list_all_iff)
  with ys bs show ?thesis by (simp add: get_text_boundaries_def)
qed

theorem scanner_boundaries_not_negative_witness:
  "(0 :: int) < 1 \<and>
   (\<exists>bs. get_text_boundaries dot_image 1 = Some (Inr bs) \<and>
      list_all (\<lambda>b. 0 \<le> fst (boundary.end_point b) - fst (boundary.start_point b) \<and>
                    boundary_length b
                      = fst (boundary.end_point b) - fst (boundary.start_point b) \<and>
                    fst (boundary.end_point b) \<le> width dot_image) bs)"
proof -
  have h: "(0 :: int) < 1" by simp
  from scanner_boundaries_not_negative [OF h, of dot_image] h show ?thesis by blast
qed

lemma dot_image_scan:
  "get_text_boundaries dot_image 1 = Some (Inr [\<lparr>start_point = (0, 1), end_point = (0, 1)\<rparr>])"
  by (simp add: get_text_boundaries_def range3_def dot_image_def boundaries_while.simps
      find_pixel_def find_pixel_while.simps getpixel_def is_target_pixel_def upto.simps)

text \<open>
  Claim C3, as stated, fails: a length above zero. In \<open>dot_image\<close> the row 1 has one
  opaque pixel, at column 0. With a row spacing of 1 the scanner finds the start at column
  0, finds the first transparent pixel at column 1, and emits the boundary from
  \<open>(0, 1)\<close> to \<open>(1 - 1, 1)\<close>, whose length is 0.
\<close>

theorem scanner_emits_zero_length_boundary:
  "get_text_boundaries dot_image 1
     = Some (Inr [\<lparr>start_point = (0, 1), end_point = (0, 1)\<rparr>]) \<and>
   boundary_length \<lparr>start_point = (0, 1), end_point = (0, 1)\<rparr> = 0 \<and>
   \<not> (\<exists>bs. get_text_boundaries dot_image 1 = Some (Inr bs) \<and>
          list_all (\<lambda>b. 0 < boundary_length b \<and> fst (boundary.end_point b) \<le> width dot_image)
            bs)"
  by (simp add: dot_image_scan boundary_length_def)

section \<open>The renderer and a line of one word\<close>

lemma mono_bbox: "getbbox mono_font w = (0, 0, 10 * int (length w), 20)"
  by (simp add: mono_font_def)

lemma str_split_hi: "str_split ''hi'' = [''hi'']"
  by (simp add: str_split_def isspace_def)

lemma pack_hi:
  "align_text_to_boundaries ''hi'' [span100] mono_font 5 Map.empty =
     ([\<lparr>word_spacing = 0, start_point = (10, 50), font = mono_font, words = [''hi'']\<rparr>],
      [(''hi'', mono_font) \<mapsto> 20])"
  by (simp add: align_text_to_boundaries_def str_split_hi Let_def get_word_width_def
        mono_width total_width_def words_width_def add_word_def span100_def boundary_length_def
        fit_length_def)

lemma single_word_block_flush:
  assumes "cache_ok c" "words line = [w]" "word_spacing line = 0"
  shows "words (fst (single_word_block line c)) = ['''', w, '''']"
    and "word_spacing (fst (single_word_block line c))
           = - of_int (get_word_width_wrapped '''' (font line))"
    and "cache_ok (snd (single_word_block line c))"
proof -
  obtain len c1 where t: "total_width line c = (len, c1)" by (cases "total_width line c")
  from total_width_ok [OF assms(1), of line] t assms(2,3)
  have len: "len = of_int (get_word_width_wrapped w (font line))" and c1: "cache_ok c1"
    by (simp_all add: glyph_sum_def)
  let ?l3 = "line\<lparr>words := ['''', w, '''']\<rparr>"
  have sb: "single_word_block line c = fit_length ?l3 len c1"
    by (simp add: single_word_block_def assms(2) t)
  from fit_length_ok [OF c1, of ?l3 len]
  have f: "fst (fit_length ?l3 len c1) = justified ?l3 len"
    and "cache_ok (snd (fit_length ?l3 len c1))" by simp_all
  then show "cache_ok (snd (single_word_block line c))" by (simp add: sb)
  show "words (fst (single_word_block line c)) = ['''', w, '''']"
    by (simp only: sb f) (simp add: justified_def)
  show "word_spacing (fst (single_word_block line c))
           = - of_int (get_word_width_wrapped '''' (font line))"
    by (simp only: sb f) (simp add: justified_def glyph_sum_def len)
qed

lemma single_word_drawn_flush:
  assumes "cache_ok c" "words line = [w]" "word_spacing line = 0" "font line = f"
  shows "\<exists>x3. fst (draw_words (words (fst (single_word_block line c))) (x, y)
                 (word_spacing (fst (single_word_block line c))) f col canvas
                 (snd (single_word_block line c)))
           = canvas @ [((x, y), '''', col, f), ((x, y), w, col, f), ((x3, y), '''', col, f)]"
proof -
  let ?e = "get_word_width_wrapped '''' f"
  let ?sp = "- of_int ?e :: rat"
  let ?c1 = "snd (single_word_block line c)"
  note sb = single_word_block_flush [OF assms(1-3)]
  obtain v1 c2 where g1: "get_word_width '''' f ?c1 = (v1, c2)"
    by (cases "get_word_width '''' f ?c1")
  from get_word_width_ok [OF sb(3), of "''''" f] g1
  have v1: "v1 = ?e" and c2: "cache_ok c2" by simp_all
  obtain v2 c3 where g2: "get_word_width w f c2 = (v2, c3)" by (cases "get_word_width w f c2")
  obtain v3 c4 where g3: "get_word_width '''' f c3 = (v3, c4)"
    by (cases "get_word_width '''' f c3")
  show ?thesis
    by (simp add: sb(1,2) assms(4) g1 g2 g3 v1)
qed



text \<open>
  Claim C4, evaluated on the code. The text \<open>hi\<close>, 20 pixels wide, is packed into the
  boundary \<open>span100\<close>, which starts at column 10 and has length 100, and the line is
  drawn. The renderer does replace the words by the empty string, the word and the empty
  string, but it solves the spacing for the line's own \<^verbatim>\<open>total_width\<close>, which is the
  width of the word, so the spacing stays 0 and the word is drawn at column 10, the
  boundary's start; centred it would be at column 50. Lemma \<open>single_word_drawn_flush\<close>
  above shows the same for every line of one word that the packer finalizes.
\<close>

theorem single_word_drawn_at_boundary_start:
  "fst (draw_text_lines []
         (fst (align_text_to_boundaries ''hi'' [span100] mono_font 5 Map.empty))
         mono_font black
         (snd (align_text_to_boundaries ''hi'' [span100] mono_font 5 Map.empty)))
     = [((10, 34), '''', black, mono_font), ((10, 34), ''hi'', black, mono_font),
        ((30, 34), '''', black, mono_font)] \<and>
   boundary.start_point span100 = (10, 50) \<and> boundary_length span100 = 100 \<and>
   get_word_width_wrapped ''hi'' mono_font = 20"
proof -
  have "fst (draw_text_lines []
         (fst (align_text_to_boundaries ''hi'' [span100] mono_font 5 Map.empty))
         mono_font black
         (snd (align_text_to_boundaries ''hi'' [span100] mono_font 5 Map.empty)))
     = [((10, 34), [], black, mono_font), ((10, 34), ''hi'', black, mono_font),
        ((30, 34), [], black, mono_font)]"
    by (simp add: pack_hi draw_text_lines_def mono_bbox single_word_block_def total_width_def
        words_width_def get_word_width_def mono_width fit_length_def Let_def)
  then show ?thesis
    by (simp add: span100_def boundary_length_def mono_width)
qed

section \<open>The font-size search\<close>

lemma blank_scan: "get_text_boundaries blank_image 200 = Some (Inr [])"
  by (simp add: get_text_boundaries_def range3_def blank_image_def boundaries_while.simps
      find_pixel_def find_pixel_while.simps getpixel_def is_target_pixel_def upto.simps)

lemma two_span_scan:
  "get_text_boundaries two_span_image 200 =
     Some (Inr [\<lparr>start_point = (0, 200), end_point = (400, 200)\<rparr>,
                \<lparr>start_point = (601, 200), end_point = (601, 200)\<rparr>])"
  by (simp add: get_text_boundaries_def range3_def two_span_image_def boundaries_while.simps
      find_pixel_def find_pixel_while.simps getpixel_def is_target_pixel_def upto.simps)

lemma spacings_for_keeps:
  "spacings_for im txt f tw sp st = Some (Inr st') \<Longrightarrow>
   s_lower st' = s_lower st \<and> s_upper st' = s_upper st \<and> s_font_size st' = s_font_size st \<and>
   s_font st' = s_font st \<and>
   (\<exists>more. s_printed st' = s_printed st @ more \<and>
      (sp \<noteq> [] \<longrightarrow> (\<exists>tl. more = (s_font_size st, s_lower st, s_upper st) # tl)))"
proof (induction sp arbitrary: st)
  case Nil
  then show ?case by simp
next
  case (Cons ms rest)
  let ?st1 = "st\<lparr>s_printed := s_printed st @ [(s_font_size st, s_lower st, s_upper st)]\<rparr>"
  from Cons.prems obtain bs where
    bs: "get_text_boundaries im (py_int (s_font_size st)) = Some (Inr bs)"
    by (auto simp: Let_def split: option.splits sum.splits)
  obtain ls c' where al: "align_text_to_boundaries txt bs f ms (s_cache st) = (ls, c')"
    by (cases "align_text_to_boundaries txt bs f ms (s_cache st)")
  let ?st2 = "?st1\<lparr>s_boundaries := bs, s_lines := ls, s_cache := c'\<rparr>"
  show ?case
  proof (cases "length ls = length bs \<and>
                sum_list (map (\<lambda>line. length (words line)) ls) = tw")
    case True
    with Cons.prems bs al have "st' = ?st2" by (simp add: Let_def)
    then show ?thesis by simp
  next
    case False
    with Cons.prems bs al have "spacings_for im txt f tw rest ?st2 = Some (Inr st')"
      by (simp add: Let_def)
    from Cons.IH [OF this] show ?thesis by auto
  qed
qed

lemma adjust_window_keeps:
  "adjust_window tw st = (fl, st') \<Longrightarrow>
   s_printed st' = s_printed st \<and> s_lines st' = s_lines st \<and>
   s_boundaries st' = s_boundaries st \<and> s_font st' = s_font st \<and> s_cache st' = s_cache st"
  by (auto simp: adjust_window_def Let_def split: if_splits)

lemma search_body_split:
  assumes "search_body im txt font_fp tw st = Some (Inr (fl, st'))"
  obtains st2 where
    "spacings_for im txt (load_font font_fp (py_int (s_font_size st))) tw
       (map (\<lambda>i. i * s_font_size st) [2 / 10, 3 / 10, 4 / 10, 5 / 10, 6 / 10, 7 / 10, 8 / 10])
       (st\<lparr>s_font := Some (load_font font_fp (py_int (s_font_size st)))\<rparr>) = Some (Inr st2)"
    and "adjust_window tw st2 = (fl, st')"
  using assms
  by (auto simp: search_body_def Let_def split: option.splits sum.splits)

lemma search_body_printed:
  assumes "search_body im txt font_fp tw st = Some (Inr (fl, st'))"
  shows "\<exists>tl. s_printed st' = s_printed st @ (s_font_size st, s_lower st, s_upper st) # tl"
    and "s_font st' \<noteq> None"
proof -
  from assms obtain st2 where
    sp: "spacings_for im txt (load_font font_fp (py_int (s_font_size st))) tw
       (map (\<lambda>i. i * s_font_size st) [2 / 10, 3 / 10, 4 / 10, 5 / 10, 6 / 10, 7 / 10, 8 / 10])
       (st\<lparr>s_font := Some (load_font font_fp (py_int (s_font_size st)))\<rparr>) = Some (Inr st2)"
    and aw: "adjust_window tw st2 = (fl, st')"
    by (rule search_body_split)
  from spacings_for_keeps [OF sp] adjust_window_keeps [OF aw]
  show "\<exists>tl. s_printed st' = s_printed st @ (s_font_size st, s_lower st, s_upper st) # tl"
    and "s_font st' \<noteq> None"
    by auto
qed

lemma search_while_printed_aux:
  assumes "search_while im txt font_fp tw st = Some r"
  shows "case r of Inl e \<Rightarrow> True | Inr st' \<Rightarrow> \<exists>more. s_printed st' = s_printed st @ more"
proof (induct im "txt" font_fp tw st r rule: search_while.raw_induct)
  case (1 sw im tx font_fp tw st r)
  show ?case
  proof (cases "s_upper st - s_lower st > 1 / 2")
    case False
    with 1(2) show ?thesis by auto
  next
    case True
    show ?thesis
    proof (cases r)
      case (Inl e)
      then show ?thesis by simp
    next
      case (Inr st')
      with True 1(2) obtain fl st1 where
        b: "search_body im tx font_fp tw st = Some (Inr (fl, st1))"
        by (auto split: option.splits sum.splits)
      from search_body_printed(1) [OF b] obtain tl where
        p: "s_printed st1 = s_printed st @ (s_font_size st, s_lower st, s_upper st) # tl"
        by blast
      show ?thesis
      proof (cases fl)
        case Break
        with True b 1(2) Inr have "st' = st1" by simp
        with p Inr show ?thesis by simp
      next
        case Continue
        with True b 1(2) have r1: "sw im tx font_fp tw st1 = Some r" by simp
        from 1(1) [OF r1] p Inr show ?thesis by auto
      qed
    qed
  qed
qed (fact assms)

lemma search_while_printed:
  "search_while im txt font_fp tw st = Some (Inr st') \<Longrightarrow>
   \<exists>more. s_printed st' = s_printed st @ more"
  by (drule search_while_printed_aux) simp

lemma initial_guard:
  assumes "2000 \<le> sw"
  shows "1 / 2 < s_upper (initial_state sw c) - s_lower (initial_state sw c)"
proof -
  from assms have "(2000 :: rat) \<le> of_int sw" by (metis of_int_le_iff of_int_numeral)
  then show ?thesis by (simp add: initial_state_def)
qed

text \<open>
  Claim C5, as amended. \<^verbatim>\<open>fit_text_to_image\<close> has no test of its input before the
  loop and no way around the loop. Whatever the image and the text, empty text and an
  image without opaque pixels included, a run that returns has been through the body of
  the \<^verbatim>\<open>while\<close> loop: the first line it printed is the first candidate size, the
  tenth of the scaled width, with the bounds 1 and that size.
\<close>

theorem fit_text_always_runs_loop_body:
  assumes "fit_text_to_image resize fp txt font_fp col c = Some (Inr (canvas, printed, c'))"
  shows "\<exists>more. printed = (of_int (max 2000 (width fp)) / 10, 1,
                             of_int (max 2000 (width fp)) / 10) # more"
proof -
  let ?sw = "max 2000 (width fp)"
  let ?im = "resize fp (?sw, py_int (of_int ?sw * (of_int (height fp) / of_int (width fp))))"
  let ?n = "length (str_split txt)"
  let ?st0 = "initial_state ?sw c"
  from assms obtain st where
    w: "search_while ?im txt font_fp ?n ?st0 = Some (Inr st)" and p: "printed = s_printed st"
    by (auto simp: fit_text_to_image_def Let_def split: if_splits option.splits sum.splits
        prod.splits)
  have g: "1 / 2 < s_upper ?st0 - s_lower ?st0" by (rule initial_guard) simp
  have unf: "search_while ?im txt font_fp ?n ?st0 =
          (case search_body ?im txt font_fp ?n ?st0 of
             None \<Rightarrow> None
           | Some (Inl e) \<Rightarrow> Some (Inl e)
           | Some (Inr (Break, st')) \<Rightarrow> Some (Inr st')
           | Some (Inr (Continue, st')) \<Rightarrow> search_while ?im txt font_fp ?n st')"
    using g by (subst search_while.simps) simp
  from w unf obtain fl st1 where
    b: "search_body ?im txt font_fp ?n ?st0 = Some (Inr (fl, st1))"
    by (auto split: option.splits sum.splits)
  from search_body_printed(1) [OF b] obtain tl where
    p1: "s_printed st1 = (of_int ?sw / 10, 1, of_int ?sw / 10) # tl"
    by (auto simp: initial_state_def)
  show ?thesis
  proof (cases fl)
    case Break
    with w unf b have "st = st1" by simp
    with p p1 show ?thesis by simp
  next
    case Continue
    with w unf b have "search_while ?im txt font_fp ?n st1 = Some (Inr st)" by simp
    from search_while_printed [OF this] p p1 show ?thesis by auto
  qed
qed

lemma py_int_200: "py_int 200 = 200"
  by (simp add: py_int_def)

lemma str_split_empty: "str_split [] = []"
  by (simp add: str_split_def)

lemma str_split_a: "str_split ''a'' = [''a'']"
  by (simp add: str_split_def isspace_def)

lemma blank_first_pass_empty_text:
  "search_body blank_image [] mono_file 0 (initial_state 2000 Map.empty) =
     Some (Inr (Break,
       \<lparr>s_lower = 1, s_upper = 200, s_font_size = 200, s_lines = [], s_boundaries = [],
        s_font = Some (load_font mono_file 200), s_printed = [(200, 1, 200)],
        s_cache = Map.empty\<rparr>))"
  by (simp add: search_body_def initial_state_def py_int_200 blank_scan Let_def
      align_text_to_boundaries_def str_split_empty adjust_window_def)

lemma blank_run_empty_text:
  "fit_text_to_image keep_pixels blank_image [] mono_file black Map.empty =
     Some (Inr ([], [(200, 1, 200)], Map.empty))"
proof -
  have k: "keep_pixels blank_image (2000, 2000) = blank_image"
    by (simp add: keep_pixels_def blank_image_def)
  have w: "width blank_image = 2000" "height blank_image = 2000"
    by (simp_all add: blank_image_def)
  have g: "1 / 2 < s_upper (initial_state 2000 Map.empty) - s_lower (initial_state 2000 Map.empty)"
    by (rule initial_guard) simp
  have s: "search_while blank_image [] mono_file 0 (initial_state 2000 Map.empty) =
     Some (Inr \<lparr>s_lower = 1, s_upper = 200, s_font_size = 200, s_lines = [], s_boundaries = [],
        s_font = Some (load_font mono_file 200), s_printed = [(200, 1, 200)],
        s_cache = Map.empty\<rparr>)"
    using g by (subst search_while.simps) (simp add: blank_first_pass_empty_text)
  show ?thesis
    by (simp add: fit_text_to_image_def w py_int_def k str_split_empty s draw_text_lines_def
        cache_clear_def Let_def split: prod.splits)
qed

lemma blank_first_pass_text:
  "search_body blank_image ''a'' mono_file 1 (initial_state 2000 Map.empty) =
     Some (Inr (Continue,
       \<lparr>s_lower = 1, s_upper = 200, s_font_size = 201 / 2, s_lines = [], s_boundaries = [],
        s_font = Some (load_font mono_file 200),
        s_printed = replicate 7 (200, 1, 200), s_cache = Map.empty\<rparr>))"
  by (simp add: search_body_def initial_state_def py_int_200 blank_scan Let_def
      align_text_to_boundaries_def str_split_a adjust_window_def numeral_eq_Suc)

text \<open>
  Claim C5, as stated, fails. \<open>blank_image\<close> has 2000 by 2000 transparent pixels, so the
  scan with the row spacing 200 yields no boundary. With the empty text the run is not
  rejected: it returns an empty canvas after one pass through the loop body, which printed
  the candidate size 200. With the text \<open>a\<close> the first pass tries all seven spacings and
  goes on with the upper bound 200 and the candidate size 100.5: the search is run, not
  short-circuited.
\<close>

theorem degenerate_input_enters_search_loop:
  "fit_text_to_image keep_pixels blank_image [] mono_file black Map.empty
     = Some (Inr ([], [(200, 1, 200)], Map.empty)) \<and>
   get_text_boundaries blank_image 200 = Some (Inr []) \<and>
   search_body blank_image ''a'' mono_file 1 (initial_state 2000 Map.empty) =
     Some (Inr (Continue,
       \<lparr>s_lower = 1, s_upper = 200, s_font_size = 201 / 2, s_lines = [], s_boundaries = [],
        s_font = Some (load_font mono_file 200),
        s_printed = replicate 7 (200, 1, 200), s_cache = Map.empty\<rparr>))"
  by (simp only: blank_run_empty_text blank_scan blank_first_pass_text simp_thms)

theorem fit_text_always_runs_loop_body_witness:
  "fit_text_to_image keep_pixels blank_image [] mono_file black Map.empty
     = Some (Inr ([], [(200, 1, 200)], Map.empty)) \<and>
   (\<exists>more. [(200 :: rat, 1 :: rat, 200 :: rat)]
      = (of_int (max 2000 (width blank_image)) / 10, 1,
         of_int (max 2000 (width blank_image)) / 10) # more)"
  using fit_text_always_runs_loop_body [OF blank_run_empty_text] blank_run_empty_text
  by blast

text \<open>
  Claim C8, as amended. When an iteration ends with fewer lines than boundaries the loop
  goes on. If the candidate size had reached the upper bound, the upper bound is raised by
  twice the width of the window, which makes the window three times as wide, the lower
  bound stays, and the next candidate is the new upper bound, not the midpoint. Otherwise
  the candidate becomes the lower bound and the next candidate is the midpoint of the
  window.
\<close>

theorem search_fewer_lines_than_boundaries:
  assumes "search_body im txt font_fp tw st = Some (Inr (fl, st'))"
    and "length (s_lines st') < length (s_boundaries st')"
  shows "fl = Continue \<and>
         (if s_font_size st \<ge> s_upper st
          then s_upper st' = s_upper st + (s_upper st - s_lower st) * 2 \<and>
               s_upper st' - s_lower st' = 3 * (s_upper st - s_lower st) \<and>
               s_font_size st' = s_upper st' \<and> s_lower st' = s_lower st
          else s_lower st' = s_font_size st \<and> s_upper st' = s_upper st \<and>
               s_font_size st' = (s_upper st + s_font_size st) / 2)"
proof -
  from assms(1) obtain st2 where
    sp: "spacings_for im txt (load_font font_fp (py_int (s_font_size st))) tw
       (map (\<lambda>i. i * s_font_size st) [2 / 10, 3 / 10, 4 / 10, 5 / 10, 6 / 10, 7 / 10, 8 / 10])
       (st\<lparr>s_font := Some (load_font font_fp (py_int (s_font_size st)))\<rparr>) = Some (Inr st2)"
    and aw: "adjust_window tw st2 = (fl, st')"
    by (rule search_body_split)
  from spacings_for_keeps [OF sp]
  have k: "s_lower st2 = s_lower st" "s_upper st2 = s_upper st" "s_font_size st2 = s_font_size st"
    by simp_all
  from adjust_window_keeps [OF aw] assms(2)
  have lt: "length (s_lines st2) < length (s_boundaries st2)" by simp
  show ?thesis
  proof (cases "s_font_size st \<ge> s_upper st")
    case True
    with aw lt k show ?thesis
      by (auto simp: adjust_window_def Let_def)
  next
    case False
    with aw lt k show ?thesis
      by (auto simp: adjust_window_def Let_def)
  qed
qed

lemma two_span_first_pass:
  "\<exists>st'. search_body two_span_image ''a'' mono_file 1 (initial_state 2000 Map.empty)
           = Some (Inr (Continue, st')) \<and>
         length (s_lines st') = 1 \<and> length (s_boundaries st') = 2 \<and>
         s_lower st' = 1 \<and> s_upper st' = 598 \<and> s_font_size st' = 598"
  by (simp add: search_body_def initial_state_def py_int_200 two_span_scan Let_def
      align_text_to_boundaries_def str_split_a adjust_window_def load_font_def mono_file_def
      get_word_width_def get_word_width_wrapped_def total_width_def words_width_def
      add_word_def boundary_length_def fit_length_def)

theorem search_fewer_lines_than_boundaries_witness:
  "\<exists>fl st'. search_body two_span_image ''a'' mono_file 1 (initial_state 2000 Map.empty)
           = Some (Inr (fl, st')) \<and>
     length (s_lines st') < length (s_boundaries st') \<and>
     fl = Continue \<and>
     s_upper st' = s_upper (initial_state 2000 Map.empty)
        + (s_upper (initial_state 2000 Map.empty) - s_lower (initial_state 2000 Map.empty)) * 2 \<and>
     s_font_size st' = s_upper st' \<and> s_lower st' = s_lower (initial_state 2000 Map.empty)"
proof -
  from two_span_first_pass obtain st' where
    b: "search_body two_span_image ''a'' mono_file 1 (initial_state 2000 Map.empty)
           = Some (Inr (Continue, st'))"
    and l: "length (s_lines st') = 1" "length (s_boundaries st') = 2" by blast
  from l have lt: "length (s_lines st') < length (s_boundaries st')" by simp
  have c: "s_font_size (initial_state 2000 Map.empty) \<ge> s_upper (initial_state 2000 Map.empty)"
    by (simp add: initial_state_def)
  from search_fewer_lines_than_boundaries [OF b lt] c b lt show ?thesis by auto
qed

text \<open>
  Claim C8, as stated, fails: the window is not doubled. The first pass on
  \<open>two_span_image\<close> with the text \<open>a\<close> starts at the upper bound 200 with a window of
  199, packs one line for two boundaries, and ends with the bounds 1 and 598: a window of
  597, three times 199, not twice.
\<close>

theorem search_window_not_doubled:
  "s_upper (initial_state 2000 Map.empty) - s_lower (initial_state 2000 Map.empty) = 199 \<and>
   s_font_size (initial_state 2000 Map.empty) = s_upper (initial_state 2000 Map.empty) \<and>
   (\<exists>st'. search_body two_span_image ''a'' mono_file 1 (initial_state 2000 Map.empty)
           = Some (Inr (Continue, st')) \<and>
         length (s_lines st') = 1 \<and> length (s_boundaries st') = 2 \<and>
         s_upper st' - s_lower st' = 597 \<and>
         s_upper st' - s_lower st'
           \<noteq> 2 * (s_upper (initial_state 2000 Map.empty)
                   - s_lower (initial_state 2000 Map.empty)))"
proof -
  from two_span_first_pass obtain st' where
    b: "search_body two_span_image ''a'' mono_file 1 (initial_state 2000 Map.empty)
           = Some (Inr (Continue, st'))"
    and l: "length (s_lines st') = 1" "length (s_boundaries st') = 2"
      "s_lower st' = 1" "s_upper st' = 598" by blast
  have i: "s_upper (initial_state 2000 Map.empty) - s_lower (initial_state 2000 Map.empty) = 199"
    "s_font_size (initial_state 2000 Map.empty) = s_upper (initial_state 2000 Map.empty)"
    by (simp_all add: initial_state_def)
  from b l i show ?thesis by auto
qed

lemma one_span_scan:
  "get_text_boundaries one_span_image 200 =
     Some (Inr [\<lparr>start_point = (0, 200), end_point = (400, 200)\<rparr>])"
  by (simp add: get_text_boundaries_def range3_def one_span_image_def boundaries_while.simps
      find_pixel_def find_pixel_while.simps getpixel_def is_target_pixel_def upto.simps)

lemma one_span_first_pass:
  "search_body one_span_image ''a'' mono_file 1 (initial_state 2000 Map.empty) =
     Some (Inr (Break,
       \<lparr>s_lower = 1, s_upper = 200, s_font_size = 200,
        s_lines = [\<lparr>word_spacing = 0, start_point = (0, 200),
                     font = load_font mono_file 200, words = [''a'']\<rparr>],
        s_boundaries = [\<lparr>start_point = (0, 200), end_point = (400, 200)\<rparr>],
        s_font = Some (load_font mono_file 200), s_printed = [(200, 1, 200)],
        s_cache = [(''a'', load_font mono_file 200) \<mapsto> 200]\<rparr>))"
  by (simp add: search_body_def initial_state_def py_int_200 one_span_scan Let_def
      align_text_to_boundaries_def str_split_a adjust_window_def mono_file_def
      get_word_width_def get_word_width_wrapped_def total_width_def words_width_def
      add_word_def boundary_length_def fit_length_def load_font_def)

lemma one_span_run:
  "fit_text_to_image keep_pixels one_span_image ''a'' mono_file black Map.empty =
     Some (Inr ([((0, 40), [], black, load_font mono_file 200),
                 ((0, 40), ''a'', black, load_font mono_file 200),
                 ((200, 40), [], black, load_font mono_file 200)],
                [(200, 1, 200)], Map.empty))"
proof -
  have k: "keep_pixels one_span_image (2000, 250) = one_span_image"
    by (simp add: keep_pixels_def one_span_image_def)
  have w: "width one_span_image = 2000" "height one_span_image = 250"
    by (simp_all add: one_span_image_def)
  have g: "1 / 2 < s_upper (initial_state 2000 Map.empty) - s_lower (initial_state 2000 Map.empty)"
    by (rule initial_guard) simp
  have s: "search_while one_span_image ''a'' mono_file 1 (initial_state 2000 Map.empty) =
     Some (Inr \<lparr>s_lower = 1, s_upper = 200, s_font_size = 200,
        s_lines = [\<lparr>word_spacing = 0, start_point = (0, 200),
                     font = load_font mono_file 200, words = [''a'']\<rparr>],
        s_boundaries = [\<lparr>start_point = (0, 200), end_point = (400, 200)\<rparr>],
        s_font = Some (load_font mono_file 200), s_printed = [(200, 1, 200)],
        s_cache = [(''a'', load_font mono_file 200) \<mapsto> 200]\<rparr>)"
    by (subst search_while.simps)
       (simp only: g if_True one_span_first_pass option.case sum.case prod.case flow.case)
  from s have s': "search_while one_span_image ''a'' mono_file (Suc 0)
      (initial_state 2000 Map.empty) =
     Some (Inr \<lparr>s_lower = 1, s_upper = 200, s_font_size = 200,
        s_lines = [\<lparr>word_spacing = 0, start_point = (0, 200),
                     font = load_font mono_file 200, words = [''a'']\<rparr>],
        s_boundaries = [\<lparr>start_point = (0, 200), end_point = (400, 200)\<rparr>],
        s_font = Some (load_font mono_file 200), s_printed = [(200, 1, 200)],
        s_cache = [(''a'', load_font mono_file 200) \<mapsto> 200]\<rparr>)"
    by simp
  have p: "py_int 250 = 250" by (simp add: py_int_def)
  have b: "getbbox (load_font mono_file 200) w = (0, 0, 200 * int (length w), 200)" for w
    by (simp add: load_font_def mono_file_def)
  show ?thesis
    by (simp add: fit_text_to_image_def w p k str_split_a s' draw_text_lines_def
        cache_clear_def Let_def single_word_block_def total_width_def words_width_def
        get_word_width_def get_word_width_wrapped_def b fit_length_def)
qed

section \<open>The cache does not change what a run returns\<close>

lemma align_while_any_cache:
  assumes "cache_ok c" "cache_ok c'" "font line = f" "word_spacing line = ms"
  shows "fst (align_while line b f ms ws lines c) = fst (align_while line b f ms ws lines c') \<and>
         fst (snd (align_while line b f ms ws lines c))
           = fst (snd (align_while line b f ms ws lines c'))"
  using assms
proof (induction ws arbitrary: line c c')
  case Nil
  from fit_length_ok(1) [OF Nil(1), of line "of_int (boundary_length b)"]
       fit_length_ok(1) [OF Nil(2), of line "of_int (boundary_length b)"]
  show ?case by (simp add: split_beta)
next
  case (Cons word ws)
  from align_while_step [OF Cons.prems(1,3,4), of b word ws lines]
  obtain c2 c3 where c2: "cache_ok c2" and
    s1: "align_while line b f ms (word # ws) lines c =
           (if accepted f ms b (words line @ [word])
            then align_while (add_word line word) b f ms ws lines c2
            else (lines @ [justified line (of_int (boundary_length b))], word # ws, c3))"
    by blast
  from align_while_step [OF Cons.prems(2,3,4), of b word ws lines]
  obtain c2' c3' where c2': "cache_ok c2'" and
    s2: "align_while line b f ms (word # ws) lines c' =
           (if accepted f ms b (words line @ [word])
            then align_while (add_word line word) b f ms ws lines c2'
            else (lines @ [justified line (of_int (boundary_length b))], word # ws, c3'))"
    by blast
  show ?case
  proof (cases "accepted f ms b (words line @ [word])")
    case True
    have "font (add_word line word) = f" "word_spacing (add_word line word) = ms"
      using Cons.prems(3,4) by (simp_all add: add_word_def)
    from Cons.IH [OF c2 c2' this] True show ?thesis by (simp only: s1 s2 if_True)
  next
    case False
    then show ?thesis by (simp only: s1 s2 if_False fst_conv snd_conv simp_thms)
  qed
qed

lemma align_for_any_cache:
  assumes "cache_ok c" "cache_ok c'"
  shows "fst (align_for bs f ms ws lines c) = fst (align_for bs f ms ws lines c') \<and>
         fst (snd (align_for bs f ms ws lines c)) = fst (snd (align_for bs f ms ws lines c'))"
  using assms
proof (induction bs arbitrary: ws lines c c')
  case Nil
  then show ?case by simp
next
  case (Cons b bs)
  let ?line = "\<lparr>word_spacing = ms, start_point = boundary.start_point b, font = f, words = []\<rparr>"
  obtain l1 w1 c1 where a: "align_while ?line b f ms ws lines c = (l1, w1, c1)"
    by (cases "align_while ?line b f ms ws lines c")
  obtain l1' w1' c1' where a': "align_while ?line b f ms ws lines c' = (l1', w1', c1')"
    by (cases "align_while ?line b f ms ws lines c'")
  from align_while_any_cache [OF Cons.prems, of ?line f ms b ws lines] a a'
  have e: "l1' = l1" "w1' = w1" by simp_all
  from align_while_cache_ok [OF Cons.prems(1), of ?line b f ms ws lines] a
  have c1: "cache_ok c1" by simp
  from align_while_cache_ok [OF Cons.prems(2), of ?line b f ms ws lines] a'
  have c1': "cache_ok c1'" by simp
  from Cons.IH [OF c1 c1', of w1 l1] show ?case by (simp add: a a' e Let_def)
qed

lemma align_text_any_cache:
  assumes "cache_ok c" "cache_ok c'"
  shows "fst (align_text_to_boundaries txt bs f ms c) = fst (align_text_to_boundaries txt bs f ms c')"
    and "cache_ok (snd (align_text_to_boundaries txt bs f ms c))"
proof -
  from align_for_any_cache [OF assms, of bs f ms "str_split txt" "[]"]
  show "fst (align_text_to_boundaries txt bs f ms c) = fst (align_text_to_boundaries txt bs f ms c')"
    by (simp add: align_text_to_boundaries_def split_beta)
  from align_for_cache_ok [OF assms(1), of bs f ms "str_split txt" "[]"]
  show "cache_ok (snd (align_text_to_boundaries txt bs f ms c))"
    by (simp add: align_text_to_boundaries_def split_beta)
qed


lemma same_but_cache_sym: "same_but_cache st st' \<Longrightarrow> same_but_cache st' st"
proof -
  assume a: "same_but_cache st st'"
  then have "st' = st\<lparr>s_cache := s_cache st'\<rparr>" by (simp add: same_but_cache_def)
  then have "st'\<lparr>s_cache := s_cache st\<rparr> = st\<lparr>s_cache := s_cache st', s_cache := s_cache st\<rparr>"
    by simp
  then have "st = st'\<lparr>s_cache := s_cache st\<rparr>" by simp
  with a show ?thesis by (simp add: same_but_cache_def)
qed

lemma same_but_cache_fields:
  assumes "same_but_cache st st'"
  shows "s_lower st' = s_lower st" "s_upper st' = s_upper st" "s_font_size st' = s_font_size st"
    "s_lines st' = s_lines st" "s_boundaries st' = s_boundaries st" "s_font st' = s_font st"
    "s_printed st' = s_printed st" "cache_ok (s_cache st)" "cache_ok (s_cache st')"
proof -
  from assms have e: "st' = st\<lparr>s_cache := s_cache st'\<rparr>" by (simp add: same_but_cache_def)
  show "s_lower st' = s_lower st" by (subst e) simp
  show "s_upper st' = s_upper st" by (subst e) simp
  show "s_font_size st' = s_font_size st" by (subst e) simp
  show "s_lines st' = s_lines st" by (subst e) simp
  show "s_boundaries st' = s_boundaries st" by (subst e) simp
  show "s_font st' = s_font st" by (subst e) simp
  show "s_printed st' = s_printed st" by (subst e) simp
  from assms show "cache_ok (s_cache st)" "cache_ok (s_cache st')"
    by (simp_all add: same_but_cache_def)
qed

lemma same_but_cacheI:
  assumes "s_lower st' = s_lower st" "s_upper st' = s_upper st" "s_font_size st' = s_font_size st"
    "s_lines st' = s_lines st" "s_boundaries st' = s_boundaries st" "s_font st' = s_font st"
    "s_printed st' = s_printed st" "cache_ok (s_cache st)" "cache_ok (s_cache st')"
  shows "same_but_cache st st'"
  using assms by (cases st, cases st') (simp add: same_but_cache_def)

lemma spacings_for_any_cache:
  assumes "same_but_cache st st'"
  shows "rel_option (rel_sum (=) same_but_cache)
           (spacings_for im txt f tw sp st) (spacings_for im txt f tw sp st')"
  using assms
proof (induction sp arbitrary: st st')
  case Nil
  then show ?case by simp
next
  case (Cons ms rest)
  note fl = same_but_cache_fields [OF Cons.prems]
  show ?case
  proof (cases "get_text_boundaries im (py_int (s_font_size st))")
    case None
    then show ?thesis by (simp add: fl Let_def)
  next
    case (Some r)
    show ?thesis
    proof (cases r)
      case (Inl e)
      with Some show ?thesis by (simp add: fl Let_def)
    next
      case (Inr bs)
      obtain ls c1 where a: "align_text_to_boundaries txt bs f ms (s_cache st) = (ls, c1)"
        by (cases "align_text_to_boundaries txt bs f ms (s_cache st)")
      obtain ls' c1' where a': "align_text_to_boundaries txt bs f ms (s_cache st') = (ls', c1')"
        by (cases "align_text_to_boundaries txt bs f ms (s_cache st')")
      from align_text_any_cache(1) [OF fl(8,9), of "txt" bs f ms] a a' have ls: "ls' = ls" by simp
      from align_text_any_cache(2) [OF fl(8) fl(8), of "txt" bs f ms] a have c1: "cache_ok c1"
        by simp
      from align_text_any_cache(2) [OF fl(9) fl(9), of "txt" bs f ms] a' have c1': "cache_ok c1'"
        by simp
      let ?p = "(s_font_size st, s_lower st, s_upper st)"
      let ?s2 = "st\<lparr>s_printed := s_printed st @ [?p], s_boundaries := bs, s_lines := ls,
                    s_cache := c1\<rparr>"
      let ?s2' = "st'\<lparr>s_printed := s_printed st' @ [?p], s_boundaries := bs, s_lines := ls,
                    s_cache := c1'\<rparr>"
      have rel: "same_but_cache ?s2 ?s2'"
        by (rule same_but_cacheI) (simp_all add: fl c1 c1')
      define ok where "ok \<longleftrightarrow> length ls = length bs \<and>
                    sum_list (map (\<lambda>line. length (words line)) ls) = tw"
      have e1: "spacings_for im txt f tw (ms # rest) st =
                  (if ok then Some (Inr ?s2) else spacings_for im txt f tw rest ?s2)"
        using Some Inr a by (simp add: Let_def ok_def)
      have e2: "spacings_for im txt f tw (ms # rest) st' =
                  (if ok then Some (Inr ?s2') else spacings_for im txt f tw rest ?s2')"
        using Some Inr a' by (simp add: Let_def ok_def fl ls)
      show ?thesis
      proof (cases ok)
        case True
        with rel show ?thesis by (simp only: e1 e2 if_True) simp
      next
        case False
        with Cons.IH [OF rel] show ?thesis by (simp only: e1 e2 if_False)
      qed
    qed
  qed
qed

lemma adjust_window_any_cache:
  assumes "same_but_cache st st'"
  shows "fst (adjust_window tw st) = fst (adjust_window tw st')"
    and "same_but_cache (snd (adjust_window tw st)) (snd (adjust_window tw st'))"
proof -
  note fl = same_but_cache_fields [OF assms]
  show "fst (adjust_window tw st) = fst (adjust_window tw st')"
    by (simp add: adjust_window_def fl Let_def)
  show "same_but_cache (snd (adjust_window tw st)) (snd (adjust_window tw st'))"
    by (rule same_but_cacheI) (simp_all add: adjust_window_def fl Let_def)
qed

lemma search_body_any_cache:
  assumes "same_but_cache st st'"
  shows "rel_option (rel_sum (=) (rel_prod (=) same_but_cache))
           (search_body im txt font_fp tw st) (search_body im txt font_fp tw st')"
proof -
  note fl = same_but_cache_fields [OF assms]
  let ?f = "load_font font_fp (py_int (s_font_size st))"
  let ?sp = "map (\<lambda>i. i * s_font_size st)
               [2 / 10, 3 / 10, 4 / 10, 5 / 10, 6 / 10, 7 / 10, 8 / 10]"
  have rel: "same_but_cache (st\<lparr>s_font := Some ?f\<rparr>) (st'\<lparr>s_font := Some ?f\<rparr>)"
    by (rule same_but_cacheI) (simp_all add: fl)
  from spacings_for_any_cache [OF rel, of im "txt" ?f tw ?sp]
  have r: "rel_option (rel_sum (=) same_but_cache)
      (spacings_for im txt ?f tw ?sp (st\<lparr>s_font := Some ?f\<rparr>))
      (spacings_for im txt ?f tw ?sp (st'\<lparr>s_font := Some ?f\<rparr>))" .
  have b1: "search_body im txt font_fp tw st =
     (case spacings_for im txt ?f tw ?sp (st\<lparr>s_font := Some ?f\<rparr>) of
        None \<Rightarrow> None | Some (Inl e) \<Rightarrow> Some (Inl e)
      | Some (Inr st2) \<Rightarrow> Some (Inr (adjust_window tw st2)))"
    by (simp add: search_body_def Let_def)
  have b2: "search_body im txt font_fp tw st' =
     (case spacings_for im txt ?f tw ?sp (st'\<lparr>s_font := Some ?f\<rparr>) of
        None \<Rightarrow> None | Some (Inl e) \<Rightarrow> Some (Inl e)
      | Some (Inr st2) \<Rightarrow> Some (Inr (adjust_window tw st2)))"
    by (simp add: search_body_def Let_def fl)
  show ?thesis
  proof (cases "spacings_for im txt ?f tw ?sp (st\<lparr>s_font := Some ?f\<rparr>)")
    case None
    with r show ?thesis by (simp add: b1 b2)
  next
    case (Some x)
    with r obtain x' where
      x': "spacings_for im txt ?f tw ?sp (st'\<lparr>s_font := Some ?f\<rparr>) = Some x'"
        "rel_sum (=) same_but_cache x x'"
      by (auto simp: option_rel_Some1)
    show ?thesis
    proof (cases x)
      case (Inl e)
      with x' have "x' = Inl e" by (cases x') simp_all
      with Some Inl x' show ?thesis by (simp add: b1 b2)
    next
      case (Inr st2)
      with x' obtain st2' where s2: "x' = Inr st2'" "same_but_cache st2 st2'"
        by (cases x') simp_all
      from adjust_window_any_cache [OF s2(2), of tw]
      have "rel_prod (=) same_but_cache (adjust_window tw st2) (adjust_window tw st2')"
        by (simp add: rel_prod_sel)
      with Some Inr x' s2 show ?thesis by (simp add: b1 b2)
    qed
  qed
qed


lemma search_while_any_cache_aux:
  assumes "search_while im txt font_fp tw st = Some r"
  shows "\<forall>st'. same_but_cache st st' \<longrightarrow>
           (\<exists>r'. search_while im txt font_fp tw st' = Some r' \<and> rel_sum (=) same_but_cache r r')"
proof (induct im "txt" font_fp tw st r rule: search_while.raw_induct)
  case (1 sw im tx font_fp tw st r)
  show ?case
  proof (intro allI impI)
    fix st' assume rel: "same_but_cache st st'"
    note fl = same_but_cache_fields [OF rel]
    show "\<exists>r'. search_while im tx font_fp tw st' = Some r' \<and> rel_sum (=) same_but_cache r r'"
    proof (cases "s_upper st - s_lower st > 1 / 2")
      case False
      with 1(2) have "r = Inr st" by simp
      moreover from False have "search_while im tx font_fp tw st' = Some (Inr st')"
        by (subst search_while.simps) (simp add: fl)
      ultimately show ?thesis using rel by simp
    next
      case True
      have u: "search_while im tx font_fp tw st' =
          (case search_body im tx font_fp tw st' of
             None \<Rightarrow> None
           | Some (Inl e) \<Rightarrow> Some (Inl e)
           | Some (Inr (Break, s)) \<Rightarrow> Some (Inr s)
           | Some (Inr (Continue, s)) \<Rightarrow> search_while im tx font_fp tw s)"
        using True by (subst search_while.simps) (simp add: fl)
      from True 1(2) have b: "(case search_body im tx font_fp tw st of
             None \<Rightarrow> None
           | Some (Inl e) \<Rightarrow> Some (Inl e)
           | Some (Inr (Break, s)) \<Rightarrow> Some (Inr s)
           | Some (Inr (Continue, s)) \<Rightarrow> sw im tx font_fp tw s) = Some r"
        by simp
      then obtain x where x: "search_body im tx font_fp tw st = Some x"
        by (cases "search_body im tx font_fp tw st") simp_all
      with search_body_any_cache [OF rel, of im tx font_fp tw] obtain x' where
        x': "search_body im tx font_fp tw st' = Some x'"
            "rel_sum (=) (rel_prod (=) same_but_cache) x x'"
        by (auto simp: option_rel_Some1)
      show ?thesis
      proof (cases x)
        case (Inl e)
        with x' have "x' = Inl e" by (cases x') simp_all
        with b x Inl x' u show ?thesis by auto
      next
        case (Inr p)
        obtain fl1 s1 where p: "p = (fl1, s1)" by (cases p)
        from x' Inr p obtain s1' where p': "x' = Inr (fl1, s1')" "same_but_cache s1 s1'"
          by (cases x') auto
        show ?thesis
        proof (cases fl1)
          case Break
          with b x Inr p have "r = Inr s1" by simp
          moreover from u x' p' Break have "search_while im tx font_fp tw st' = Some (Inr s1')"
            by simp
          ultimately show ?thesis using p'(2) by simp
        next
          case Continue
          with b x Inr p have "sw im tx font_fp tw s1 = Some r" by simp
          from 1(1) [OF this] p'(2) obtain r' where
            "search_while im tx font_fp tw s1' = Some r'" "rel_sum (=) same_but_cache r r'"
            by blast
          moreover from u x' p' Continue
          have "search_while im tx font_fp tw st' = search_while im tx font_fp tw s1'" by simp
          ultimately show ?thesis by simp
        qed
      qed
    qed
  qed
qed (fact assms)

lemma search_while_any_cache:
  assumes "same_but_cache st st'"
  shows "rel_option (rel_sum (=) same_but_cache)
           (search_while im txt font_fp tw st) (search_while im txt font_fp tw st')"
proof (cases "search_while im txt font_fp tw st")
  case (Some r)
  from search_while_any_cache_aux [OF Some] assms Some show ?thesis by auto
next
  case None
  show ?thesis
  proof (cases "search_while im txt font_fp tw st'")
    case n: None
    with None show ?thesis by simp
  next
    case (Some r')
    from search_while_any_cache_aux [OF Some] same_but_cache_sym [OF assms] None
    show ?thesis by auto
  qed
qed

lemma draw_words_any_cache:
  assumes "cache_ok c" "cache_ok c'"
  shows "fst (draw_words ws p sp f col canvas c) = fst (draw_words ws p sp f col canvas c')"
    and "cache_ok (snd (draw_words ws p sp f col canvas c))"
proof -
  have "fst (draw_words ws p sp f col canvas c) = fst (draw_words ws p sp f col canvas c') \<and>
        cache_ok (snd (draw_words ws p sp f col canvas c))"
    using assms
  proof (induction ws arbitrary: p canvas c c')
    case Nil
    then show ?case by simp
  next
    case (Cons word ws)
    obtain w c1 where g: "get_word_width word f c = (w, c1)" by (cases "get_word_width word f c")
    obtain w' c1' where g': "get_word_width word f c' = (w', c1')"
      by (cases "get_word_width word f c'")
    from get_word_width_ok [OF Cons.prems(1), of word f] g
    have w: "w = get_word_width_wrapped word f" and c1: "cache_ok c1" by simp_all
    from get_word_width_ok [OF Cons.prems(2), of word f] g'
    have w': "w' = get_word_width_wrapped word f" and c1': "cache_ok c1'" by simp_all
    from Cons.IH [OF c1 c1'] show ?case by (simp add: g g' w w')
  qed
  then show "fst (draw_words ws p sp f col canvas c) = fst (draw_words ws p sp f col canvas c')"
    and "cache_ok (snd (draw_words ws p sp f col canvas c))" by simp_all
qed

lemma single_word_block_any_cache:
  assumes "cache_ok c" "cache_ok c'"
  shows "fst (single_word_block line c) = fst (single_word_block line c')"
    and "cache_ok (snd (single_word_block line c))"
proof -
  have "fst (single_word_block line c) = fst (single_word_block line c') \<and>
        cache_ok (snd (single_word_block line c))"
  proof (cases "\<exists>word. words line = [word]")
    case False
    then have "single_word_block line c = (line, c)" "single_word_block line c' = (line, c')"
      by (auto simp: single_word_block_def split: list.splits)
    with assms show ?thesis by simp
  next
    case True
    then obtain word where wd: "words line = [word]" by blast
    obtain len c1 where t: "total_width line c = (len, c1)" by (cases "total_width line c")
    obtain len' c1' where t': "total_width line c' = (len', c1')"
      by (cases "total_width line c'")
    from total_width_ok [OF assms(1), of line] total_width_ok [OF assms(2), of line] t t'
    have e: "len' = len" and c1: "cache_ok c1" and c1': "cache_ok c1'" by simp_all
    let ?l3 = "line\<lparr>words := ['''', word, '''']\<rparr>"
    from fit_length_ok [OF c1, of ?l3 len] fit_length_ok [OF c1', of ?l3 len]
    show ?thesis by (simp add: single_word_block_def wd t t' e)
  qed
  then show "fst (single_word_block line c) = fst (single_word_block line c')"
    and "cache_ok (snd (single_word_block line c))" by simp_all
qed

lemma draw_lines_any_cache:
  assumes "cache_ok c" "cache_ok c'"
  shows "fst (draw_lines ls lh f col canvas c) = fst (draw_lines ls lh f col canvas c')"
  using assms
proof (induction ls arbitrary: canvas c c')
  case Nil
  then show ?case by simp
next
  case (Cons line ls)
  define p where "p = (of_int (fst (text_line.start_point line)) :: rat,
             of_int (snd (text_line.start_point line)) + of_int lh * (8 / 10) :: rat)"
  have eq: "draw_lines (line # ls) lh f col canvas c =
      (case single_word_block line c of (line', c1) \<Rightarrow>
         (case draw_words (words line') p (word_spacing line') f col canvas c1 of
            (canvas', c2) \<Rightarrow> draw_lines ls lh f col canvas' c2))" for c
    by (simp only: draw_lines.simps Let_def p_def)
  obtain l1 c1 where s: "single_word_block line c = (l1, c1)"
    by (cases "single_word_block line c")
  obtain l1' c1' where s': "single_word_block line c' = (l1', c1')"
    by (cases "single_word_block line c'")
  from single_word_block_any_cache [OF Cons.prems, of line]
       single_word_block_any_cache(2) [OF Cons.prems(2) Cons.prems(2), of line] s s'
  have e: "l1' = l1" and c1: "cache_ok c1" and c1': "cache_ok c1'" by simp_all
  obtain cv c2 where d: "draw_words (words l1) p (word_spacing l1) f col canvas c1 = (cv, c2)"
    by (cases "draw_words (words l1) p (word_spacing l1) f col canvas c1")
  obtain cv' c2' where
    d': "draw_words (words l1) p (word_spacing l1) f col canvas c1' = (cv', c2')"
    by (cases "draw_words (words l1) p (word_spacing l1) f col canvas c1'")
  from draw_words_any_cache [OF c1 c1', of "words l1" p "word_spacing l1" f col canvas]
       draw_words_any_cache(2) [OF c1' c1', of "words l1" p "word_spacing l1" f col canvas] d d'
  have e2: "cv' = cv" and c2: "cache_ok c2" and c2': "cache_ok c2'" by simp_all
  from Cons.IH [OF c2 c2', of cv] show ?case
    by (simp only: eq s s' e d d' e2 prod.case)
qed

lemma draw_text_lines_any_cache:
  assumes "cache_ok c" "cache_ok c'"
  shows "fst (draw_text_lines canvas ls f col c) = fst (draw_text_lines canvas ls f col c')"
  using draw_lines_any_cache [OF assms]
  by (simp add: draw_text_lines_def Let_def split: prod.splits)

lemma fit_text_any_cache:
  assumes "cache_ok c"
  shows "fit_text_to_image resize fp txt font_fp col c
           = fit_text_to_image resize fp txt font_fp col Map.empty"
proof (cases "width fp = 0")
  case True
  then show ?thesis by (simp add: fit_text_to_image_def)
next
  case False
  let ?sw = "max 2000 (width fp)"
  let ?im = "resize fp (?sw, py_int (of_int ?sw * (of_int (height fp) / of_int (width fp))))"
  let ?n = "length (str_split txt)"
  have rel: "same_but_cache (initial_state ?sw c) (initial_state ?sw Map.empty)"
    by (rule same_but_cacheI) (simp_all add: initial_state_def assms cache_ok_empty)
  note r = search_while_any_cache [OF rel, of ?im "txt" font_fp ?n]
  have f1: "fit_text_to_image resize fp txt font_fp col c =
      (case search_while ?im txt font_fp ?n (initial_state ?sw c) of
         None \<Rightarrow> None
       | Some (Inl e) \<Rightarrow> Some (Inl e)
       | Some (Inr st) \<Rightarrow>
           (case s_font st of
              None \<Rightarrow> Some (Inl AttributeError)
            | Some f \<Rightarrow>
                Some (Inr (fst (draw_text_lines [] (s_lines st) f col (s_cache st)),
                           s_printed st, Map.empty))))" for c
    using False
    by (simp add: fit_text_to_image_def Let_def cache_clear_def split_beta
        cong: option.case_cong sum.case_cong)
  show ?thesis
  proof (cases "search_while ?im txt font_fp ?n (initial_state ?sw c)")
    case None
    with r show ?thesis by (simp add: f1)
  next
    case (Some x)
    with r obtain x' where
      x': "search_while ?im txt font_fp ?n (initial_state ?sw Map.empty) = Some x'"
          "rel_sum (=) same_but_cache x x'"
      by (auto simp: option_rel_Some1)
    show ?thesis
    proof (cases x)
      case (Inl e)
      with x' have "x' = Inl e" by (cases x') simp_all
      with Some Inl x' show ?thesis by (simp add: f1)
    next
      case (Inr st)
      with x' obtain st' where s: "x' = Inr st'" "same_but_cache st st'"
        by (cases x') simp_all
      note fl = same_but_cache_fields [OF s(2)]
      have "fst (draw_text_lines [] (s_lines st) f col (s_cache st))
              = fst (draw_text_lines [] (s_lines st) f col (s_cache st'))" for f
        by (rule draw_text_lines_any_cache [OF fl(8,9)])
      with Some Inr x' s show ?thesis
        by (simp add: f1 fl split: option.splits)
    qed
  qed
qed


lemma cache_ok_warm: "cache_ok warm_cache"
  by (auto simp: cache_ok_def warm_cache_def get_word_width_wrapped_def load_font_def
      mono_file_def split: if_splits)

text \<open>
  Claim C9. The cache is empty when the program starts and is only written inside
  \<^verbatim>\<open>fit_text_to_image\<close>. A run that starts from a cache holding glyph widths of the
  fonts it names (the empty cache is one) and returns leaves the cache empty, since
  \<^verbatim>\<open>cache_clear\<close> is its last step, and the second run with the same image, text,
  font file and colour, started from that cache, returns the same canvas (the words and
  where they are drawn) and the same printed lines. Lemma \<open>fit_text_any_cache\<close> is the
  reason: the cache changes nothing in what a run returns.
\<close>

theorem fit_text_twice_same_result:
  assumes "cache_ok c"
    and "fit_text_to_image resize fp txt font_fp col c = Some (Inr (canvas, printed, c'))"
  shows "c' = Map.empty \<and>
         fit_text_to_image resize fp txt font_fp col c' = Some (Inr (canvas, printed, c'))"
proof -
  from assms(2) have "c' = Map.empty"
    by (auto simp: fit_text_to_image_def Let_def cache_clear_def
        split: if_splits option.splits sum.splits prod.splits)
  with assms(2) fit_text_any_cache [OF assms(1), of resize fp "txt" font_fp col]
  show ?thesis by simp
qed

theorem fit_text_twice_same_result_witness:
  "cache_ok warm_cache \<and>
   fit_text_to_image keep_pixels one_span_image ''a'' mono_file black warm_cache
     = Some (Inr ([((0, 40), [], black, load_font mono_file 200),
                   ((0, 40), ''a'', black, load_font mono_file 200),
                   ((200, 40), [], black, load_font mono_file 200)],
                  [(200, 1, 200)], Map.empty)) \<and>
   fit_text_to_image keep_pixels one_span_image ''a'' mono_file black Map.empty
     = Some (Inr ([((0, 40), [], black, load_font mono_file 200),
                   ((0, 40), ''a'', black, load_font mono_file 200),
                   ((200, 40), [], black, load_font mono_file 200)],
                  [(200, 1, 200)], Map.empty))"
proof -
  have r: "fit_text_to_image keep_pixels one_span_image ''a'' mono_file black warm_cache
     = Some (Inr ([((0, 40), [], black, load_font mono_file 200),
                   ((0, 40), ''a'', black, load_font mono_file 200),
                   ((200, 40), [], black, load_font mono_file 200)],
                  [(200, 1, 200)], Map.empty))"
    by (simp only: fit_text_any_cache [OF cache_ok_warm] one_span_run)
  from fit_text_twice_same_result [OF cache_ok_warm r]
  have "fit_text_to_image keep_pixels one_span_image ''a'' mono_file black Map.empty
     = Some (Inr ([((0, 40), [], black, load_font mono_file 200),
                   ((0, 40), ''a'', black, load_font mono_file 200),
                   ((200, 40), [], black, load_font mono_file 200)],
                  [(200, 1, 200)], Map.empty))"
    by (rule conjunct2)
  with cache_ok_warm r show ?thesis by (intro conjI)
qed

end
